theory Spec2Isabelle
  imports Main "HOL-Library.Word"
begin

section \<open>Data model of \<^verbatim>\<open>Uri.cpp\<close>\<close>

text \<open>
  \<^verbatim>\<open>struct Uri::Impl\<close>: strings are byte lists, the port is a \<^verbatim>\<open>uint16_t\<close>, the
  path is a vector of segments. A default-constructed value has empty strings, cleared
  flags and port 0.
\<close>

record Uri =
  scheme :: string
  userInfo :: string
  host :: string
  hasPort :: bool
  port :: "16 word"
  path :: "string list"
  hasQuery :: bool
  query :: string
  hasFragment :: bool
  fragment :: string

definition emptyUri :: Uri where
  "emptyUri = \<lparr> scheme = [], userInfo = [], host = [], hasPort = False, port = 0,
     path = [], hasQuery = False, query = [], hasFragment = False, fragment = [] \<rparr>"

subsection \<open>Predicates of \<^verbatim>\<open>Uri::Impl\<close>\<close>

definition HasAuthority :: "Uri \<Rightarrow> bool" where
  "HasAuthority u = (host u \<noteq> [] \<or> userInfo u \<noteq> [] \<or> hasPort u)"

text \<open>\<^verbatim>\<open>!path.empty() && (path[0] == "")\<close>: the index is read only when the path is not empty.\<close>

definition IsPathAbsolute :: "Uri \<Rightarrow> bool" where
  "IsPathAbsolute u = (case path u of [] \<Rightarrow> False | s # _ \<Rightarrow> s = [])"

definition CanNavigatePathUpOneLevel :: "Uri \<Rightarrow> bool" where
  "CanNavigatePathUpOneLevel u = (\<not> IsPathAbsolute u \<or> length (path u) > 1)"

subsection \<open>Equality, setters\<close>

definition operator_eq :: "Uri \<Rightarrow> Uri \<Rightarrow> bool" where
  "operator_eq a b =
     (scheme a = scheme b
      \<and> userInfo a = userInfo b
      \<and> host a = host b
      \<and> ((\<not> hasPort a \<and> \<not> hasPort b) \<or> ((hasPort a \<and> hasPort b) \<and> port a = port b))
      \<and> path a = path b
      \<and> ((\<not> hasQuery a \<and> \<not> hasQuery b) \<or> ((hasQuery a \<and> hasQuery b) \<and> query a = query b))
      \<and> ((\<not> hasFragment a \<and> \<not> hasFragment b)
          \<or> ((hasFragment a \<and> hasFragment b) \<and> fragment a = fragment b)))"

definition SetPort :: "16 word \<Rightarrow> Uri \<Rightarrow> Uri" where
  "SetPort p u = u\<lparr> port := p, hasPort := True \<rparr>"

definition ClearPort :: "Uri \<Rightarrow> Uri" where
  "ClearPort u = u\<lparr> hasPort := False \<rparr>"

definition SetQuery :: "string \<Rightarrow> Uri \<Rightarrow> Uri" where
  "SetQuery q u = u\<lparr> query := q, hasQuery := True \<rparr>"

definition ClearQuery :: "Uri \<Rightarrow> Uri" where
  "ClearQuery u = u\<lparr> hasQuery := False \<rparr>"

definition SetFragment :: "string \<Rightarrow> Uri \<Rightarrow> Uri" where
  "SetFragment f u = u\<lparr> fragment := f, hasFragment := True \<rparr>"

definition ClearFragment :: "Uri \<Rightarrow> Uri" where
  "ClearFragment u = u\<lparr> hasFragment := False \<rparr>"

subsection \<open>\<^verbatim>\<open>NormalizePath\<close>\<close>

text \<open>
  One iteration of the loop over the old path. The state is the object being rebuilt
  (only its \<open>path\<close> changes) and the flag \<^verbatim>\<open>atDirectoryLevel\<close>. \<^verbatim>\<open>push_back\<close> appends
  at the end, \<^verbatim>\<open>pop_back\<close> is \<open>butlast\<close> and runs only on a non-empty path.
\<close>

definition NormalizePath_step :: "Uri \<times> bool \<Rightarrow> string \<Rightarrow> Uri \<times> bool" where
  "NormalizePath_step st segment =
     (let u = fst st; atDirectoryLevel = snd st in
      if segment = ''.'' then (u, True)
      else if segment = ''..'' then
        ((if path u \<noteq> [] then
            (if CanNavigatePathUpOneLevel u then u\<lparr> path := butlast (path u) \<rparr> else u)
          else u), True)
      else
        ((if \<not> atDirectoryLevel \<or> segment \<noteq> [] then u\<lparr> path := path u @ [segment] \<rparr>
          else u), segment = []))"

definition NormalizePath :: "Uri \<Rightarrow> Uri" where
  "NormalizePath u =
     (let oldPath = path u;
          st = foldl NormalizePath_step (u\<lparr> path := [] \<rparr>, False) oldPath;
          u1 = fst st; atDirectoryLevel = snd st
      in if atDirectoryLevel \<and> (path u1 \<noteq> [] \<and> last (path u1) \<noteq> [])
         then u1\<lparr> path := path u1 @ [[]] \<rparr> else u1)"

subsection \<open>\<^verbatim>\<open>Resolve\<close> and its copy helpers\<close>

text \<open>Each helper is called on the target with the other URI as argument.\<close>

definition CopyScheme :: "Uri \<Rightarrow> Uri \<Rightarrow> Uri" where
  "CopyScheme other t = t\<lparr> scheme := scheme other \<rparr>"

definition CopyAuthority :: "Uri \<Rightarrow> Uri \<Rightarrow> Uri" where
  "CopyAuthority other t =
     t\<lparr> host := host other, userInfo := userInfo other, hasPort := hasPort other,
        port := port other \<rparr>"

definition CopyPath :: "Uri \<Rightarrow> Uri \<Rightarrow> Uri" where
  "CopyPath other t = t\<lparr> path := path other \<rparr>"

definition CopyAndNormalizePath :: "Uri \<Rightarrow> Uri \<Rightarrow> Uri" where
  "CopyAndNormalizePath other t = NormalizePath (CopyPath other t)"

definition CopyQuery :: "Uri \<Rightarrow> Uri \<Rightarrow> Uri" where
  "CopyQuery other t = t\<lparr> hasQuery := hasQuery other, query := query other \<rparr>"

definition CopyFragment :: "Uri \<Rightarrow> Uri \<Rightarrow> Uri" where
  "CopyFragment other t = t\<lparr> hasFragment := hasFragment other, fragment := fragment other \<rparr>"

text \<open>\<open>Resolve base relativeReference\<close> is \<^verbatim>\<open>base.Resolve(relativeReference)\<close>.\<close>

definition Resolve :: "Uri \<Rightarrow> Uri \<Rightarrow> Uri" where
  "Resolve base relativeReference =
     (let target = emptyUri;
          target =
            (if scheme relativeReference \<noteq> [] then
               CopyQuery relativeReference
                 (CopyAndNormalizePath relativeReference
                   (CopyAuthority relativeReference
                     (CopyScheme relativeReference target)))
             else
               CopyScheme base
                 (if host relativeReference \<noteq> [] then
                    CopyQuery relativeReference
                      (CopyAndNormalizePath relativeReference
                        (CopyAuthority relativeReference target))
                  else
                    CopyAuthority base
                      (if path relativeReference = [] then
                         (let target = target\<lparr> path := path base \<rparr> in
                          if query relativeReference \<noteq> [] then CopyQuery relativeReference target
                          else CopyQuery base target)
                       else
                         CopyQuery relativeReference
                           (if IsPathAbsolute relativeReference then
                              CopyAndNormalizePath relativeReference target
                            else
                              (let target = CopyPath base target;
                                   target = (if length (path target) > 1
                                             then target\<lparr> path := butlast (path target) \<rparr>
                                             else target);
                                   target = target\<lparr> path := path target @ path relativeReference \<rparr>
                               in NormalizePath target)))))
      in CopyFragment relativeReference target)"

section \<open>Character sets and the percent decoder\<close>

text \<open>
  Modelled from the spec: the class \<^verbatim>\<open>Uri::CharacterSet\<close> of \<^verbatim>\<open>CharacterSet.hpp\<close>, which
  is not part of the source at hand. The spec describes it as a membership tester for a
  statically defined set built from explicit characters, contiguous ranges and unions of
  other sets; the three constructors below are these three ways of building a set, and
  \<open>Contains\<close> is the membership test. Characters are bytes, compared by their code.
\<close>

datatype CharacterSet =
  OneChar char
  | CharRange char char
  | SetUnion "CharacterSet list"

fun Contains :: "CharacterSet \<Rightarrow> char \<Rightarrow> bool" where
  "Contains (OneChar a) c = (c = a)"
| "Contains (CharRange lo hi) c =
     ((of_char lo :: nat) \<le> of_char c \<and> (of_char c :: nat) \<le> of_char hi)"
| "Contains (SetUnion sets) c = (\<exists>s \<in> set sets. Contains s c)"

text \<open>The constants at the head of \<^verbatim>\<open>Uri.cpp\<close>, in the order of the source.\<close>

definition ALPHA :: CharacterSet where
  "ALPHA = SetUnion [CharRange CHR ''a'' CHR ''z'', CharRange CHR ''A'' CHR ''Z'']"

definition DIGIT :: CharacterSet where
  "DIGIT = CharRange CHR ''0'' CHR ''9''"

definition HEXDIG :: CharacterSet where
  "HEXDIG = SetUnion [CharRange CHR ''0'' CHR ''9'', CharRange CHR ''A'' CHR ''F'', CharRange CHR ''a'' CHR ''f'']"

definition UNRESERVED :: CharacterSet where
  "UNRESERVED = SetUnion [ALPHA, DIGIT, OneChar CHR ''-'', OneChar CHR ''.'', OneChar CHR ''_'',
     OneChar CHR ''~'']"

definition SUB_DELIMS :: CharacterSet where
  "SUB_DELIMS = SetUnion [OneChar CHR ''!'', OneChar CHR ''$'', OneChar CHR ''&'', OneChar (CHR 0x27),
     OneChar CHR ''('', OneChar CHR '')'', OneChar CHR ''*'', OneChar CHR ''+'', OneChar CHR '','',
     OneChar CHR '';'', OneChar CHR ''='']"

definition SCHEME_NOT_FIRST :: CharacterSet where
  "SCHEME_NOT_FIRST = SetUnion [ALPHA, DIGIT, OneChar CHR ''+'', OneChar CHR ''-'', OneChar CHR ''.'']"

definition PCHAR_NOT_PCT_ENCODED :: CharacterSet where
  "PCHAR_NOT_PCT_ENCODED = SetUnion [UNRESERVED, SUB_DELIMS, OneChar CHR '':'', OneChar CHR ''@'']"

definition QUERY_OR_FRAGMENT_NOT_PCT_ENCODED :: CharacterSet where
  "QUERY_OR_FRAGMENT_NOT_PCT_ENCODED =
     SetUnion [PCHAR_NOT_PCT_ENCODED, OneChar CHR ''/'', OneChar CHR ''?'']"

definition QUERY_NOT_PCT_ENCODED_WITHOUT_PLUS :: CharacterSet where
  "QUERY_NOT_PCT_ENCODED_WITHOUT_PLUS = SetUnion [UNRESERVED,
     OneChar CHR ''!'', OneChar CHR ''$'', OneChar CHR ''&'', OneChar (CHR 0x27), OneChar CHR ''('',
     OneChar CHR '')'', OneChar CHR ''*'', OneChar CHR '','', OneChar CHR '';'', OneChar CHR ''='',
     OneChar CHR '':'', OneChar CHR ''@'', OneChar CHR ''/'', OneChar CHR ''?'']"

definition USER_INFO_NOT_PCT_ENCODED :: CharacterSet where
  "USER_INFO_NOT_PCT_ENCODED = SetUnion [UNRESERVED, SUB_DELIMS, OneChar CHR '':'']"

definition REG_NAME_NOT_PCT_ENCODED :: CharacterSet where
  "REG_NAME_NOT_PCT_ENCODED = SetUnion [UNRESERVED, SUB_DELIMS]"

definition IPV_FUTURE_LAST_PART :: CharacterSet where
  "IPV_FUTURE_LAST_PART = SetUnion [UNRESERVED, SUB_DELIMS, OneChar CHR '':'']"

text \<open>
  Modelled from the spec: the class \<^verbatim>\<open>Uri::PercentEncodedCharacterDecoder\<close> of
  \<^verbatim>\<open>PercentEncodedCharacterDecoder.hpp\<close>, which is not part of the source at hand. The spec
  describes a two-step state machine that accepts two hexadecimal digits one at a time
  and yields the decoded byte, high digit first, and fails on a character that is not a
  hexadecimal digit; \<^verbatim>\<open>Done\<close> and \<^verbatim>\<open>GetDecodedCharacter\<close> are usable after two valid
  digits. A fresh decoder expects the first digit. The callers create a fresh decoder for
  every escape and never feed a finished one; the model rejects that.
\<close>

datatype PercentEncodedCharacterDecoder =
  ExpectFirstDigit
  | ExpectSecondDigit nat
  | Decoded nat

definition HexDigitValue :: "char \<Rightarrow> nat option" where
  "HexDigitValue c =
     (if Contains (CharRange CHR ''0'' CHR ''9'') c then Some (of_char c - of_char CHR ''0'')
      else if Contains (CharRange CHR ''A'' CHR ''F'') c then Some (of_char c - of_char CHR ''A'' + 10)
      else if Contains (CharRange CHR ''a'' CHR ''f'') c then Some (of_char c - of_char CHR ''a'' + 10)
      else None)"

fun NextEncodedCharacter ::
  "char \<Rightarrow> PercentEncodedCharacterDecoder \<Rightarrow> PercentEncodedCharacterDecoder option" where
  "NextEncodedCharacter c ExpectFirstDigit =
     (case HexDigitValue c of None \<Rightarrow> None | Some v \<Rightarrow> Some (ExpectSecondDigit v))"
| "NextEncodedCharacter c (ExpectSecondDigit h) =
     (case HexDigitValue c of None \<Rightarrow> None | Some v \<Rightarrow> Some (Decoded (16 * h + v)))"
| "NextEncodedCharacter c (Decoded v) = None"

fun Done :: "PercentEncodedCharacterDecoder \<Rightarrow> bool" where
  "Done (Decoded v) = True"
| "Done _ = False"

fun GetDecodedCharacter :: "PercentEncodedCharacterDecoder \<Rightarrow> char" where
  "GetDecodedCharacter (Decoded v) = char_of v"
| "GetDecodedCharacter _ = CHR 0x00"

section \<open>The element codec\<close>

text \<open>
  \<^verbatim>\<open>DecodeElement\<close>: the loop state is \<^verbatim>\<open>decodingPec\<close>, \<^verbatim>\<open>pecDecoder\<close> and the output
  built so far; \<open>None\<close> is \<^verbatim>\<open>return false\<close>. An escape cut short by the end of the
  input is dropped and the function still returns true, as in the source.
\<close>

fun DecodeElement_loop ::
  "CharacterSet \<Rightarrow> string \<Rightarrow> bool \<times> PercentEncodedCharacterDecoder \<times> string \<Rightarrow> string option" where
  "DecodeElement_loop allowedCharacters [] (decodingPec, pecDecoder, element) = Some element"
| "DecodeElement_loop allowedCharacters (c # cs) (decodingPec, pecDecoder, element) =
     (if decodingPec then
        (case NextEncodedCharacter c pecDecoder of
           None \<Rightarrow> None
         | Some pecDecoder' \<Rightarrow>
             if Done pecDecoder'
             then DecodeElement_loop allowedCharacters cs
                    (False, pecDecoder', element @ [GetDecodedCharacter pecDecoder'])
             else DecodeElement_loop allowedCharacters cs (True, pecDecoder', element))
      else if c = CHR ''%'' then
        DecodeElement_loop allowedCharacters cs (True, ExpectFirstDigit, element)
      else if Contains allowedCharacters c then
        DecodeElement_loop allowedCharacters cs (False, pecDecoder, element @ [c])
      else None)"

definition DecodeElement :: "string \<Rightarrow> CharacterSet \<Rightarrow> string option" where
  "DecodeElement element allowedCharacters =
     DecodeElement_loop allowedCharacters element (False, ExpectFirstDigit, [])"

definition MakeHexDigit :: "nat \<Rightarrow> char" where
  "MakeHexDigit v =
     (if v < 10 then char_of (v + of_char CHR ''0'') else char_of (v - 10 + of_char CHR ''A''))"

text \<open>
  \<^verbatim>\<open>EncodeElement\<close>: one \<^verbatim>\<open>push_back\<close> for an allowed byte, three for any other;
  \<^verbatim>\<open>c >> 4\<close> and \<^verbatim>\<open>c & 0x0F\<close> on a byte are \<open>div 16\<close> and \<open>mod 16\<close>.
\<close>

definition EncodeElement_step :: "CharacterSet \<Rightarrow> string \<Rightarrow> char \<Rightarrow> string" where
  "EncodeElement_step allowedCharacters encodedElement c =
     (if Contains allowedCharacters c then encodedElement @ [c]
      else encodedElement @ [CHR ''%'', MakeHexDigit (of_char c div 16),
                             MakeHexDigit (of_char c mod 16)])"

definition EncodeElement :: "string \<Rightarrow> CharacterSet \<Rightarrow> string" where
  "EncodeElement element allowedCharacters =
     foldl (EncodeElement_step allowedCharacters) [] element"

definition DecodeQueryOrFragment :: "string \<Rightarrow> string option" where
  "DecodeQueryOrFragment queryOrFragment =
     DecodeElement queryOrFragment QUERY_OR_FRAGMENT_NOT_PCT_ENCODED"

section \<open>Host validators\<close>

text \<open>
  \<^verbatim>\<open>ValidateOctet\<close> accumulates in an \<^verbatim>\<open>int\<close>. Signed overflow is undefined in C++; the
  model takes the two's complement wrap-around of a 32-bit \<^verbatim>\<open>int\<close>, which is what the
  usual targets do. Digit runs of up to nine digits never reach it.
\<close>

definition wrap_int32 :: "int \<Rightarrow> int" where
  "wrap_int32 x = (x + 2 ^ 31) mod 2 ^ 32 - 2 ^ 31"

fun ValidateOctet_loop :: "int \<Rightarrow> string \<Rightarrow> int option" where
  "ValidateOctet_loop octet [] = Some octet"
| "ValidateOctet_loop octet (c # cs) =
     (if Contains DIGIT c
      then ValidateOctet_loop
             (wrap_int32 (wrap_int32 (octet * 10) + (int (of_char c) - int (of_char CHR ''0''))))
             cs
      else None)"

definition ValidateOctet :: "string \<Rightarrow> bool" where
  "ValidateOctet octetString =
     (case ValidateOctet_loop 0 octetString of None \<Rightarrow> False | Some octet \<Rightarrow> octet \<le> 255)"

text \<open>
  \<^verbatim>\<open>ValidateIpv4Address\<close>: the loop state is \<^verbatim>\<open>(numGroups, state, octetBuffer)\<close>; \<open>None\<close>
  is \<^verbatim>\<open>return false\<close>. The \<^verbatim>\<open>switch\<close> has the cases 0 and 1 and no default.
\<close>

fun ValidateIpv4Address_loop :: "nat \<times> nat \<times> string \<Rightarrow> string \<Rightarrow> (nat \<times> nat \<times> string) option" where
  "ValidateIpv4Address_loop st [] = Some st"
| "ValidateIpv4Address_loop (numGroups, state, octetBuffer) (c # cs) =
     (if state = 0 then
        (if Contains DIGIT c
         then ValidateIpv4Address_loop (numGroups, 1, octetBuffer @ [c]) cs
         else None)
      else if state = 1 then
        (if c = CHR ''.'' then
           (if numGroups \<ge> 4 then None
            else if \<not> ValidateOctet octetBuffer then None
            else ValidateIpv4Address_loop (numGroups + 1, 0, []) cs)
         else if Contains DIGIT c
         then ValidateIpv4Address_loop (numGroups, state, octetBuffer @ [c]) cs
         else None)
      else ValidateIpv4Address_loop (numGroups, state, octetBuffer) cs)"

definition ValidateIpv4Address :: "string \<Rightarrow> bool" where
  "ValidateIpv4Address address =
     (case ValidateIpv4Address_loop (0, 0, []) address of
        None \<Rightarrow> False
      | Some (numGroups, state, octetBuffer) \<Rightarrow>
          (if octetBuffer \<noteq> [] then
             (if \<not> ValidateOctet octetBuffer then False else numGroups + 1 = 4)
           else numGroups = 4))"

datatype ValidationState =
  NO_GROUPS_YET
  | COLON_BUT_NO_GROUPS_YET
  | AFTER_DOUBLE_COLON
  | IN_GROUP_NOT_IPV4
  | IN_GROUP_COULD_BE_IPV4
  | COLON_AFTER_GROUP

record Ipv6Scan =
  state :: ValidationState
  numGroups :: nat
  numDigits :: nat
  doubleColonEncountered :: bool
  potentialIpv4AddressStart :: nat
  position :: nat
  ipv4AddressEncountered :: bool

text \<open>The body of the \<^verbatim>\<open>switch\<close> of \<^verbatim>\<open>ValidateIpv6Address\<close>; \<open>None\<close> is \<^verbatim>\<open>return false\<close>.\<close>

definition ValidateIpv6Address_step :: "Ipv6Scan \<Rightarrow> char \<Rightarrow> Ipv6Scan option" where
  "ValidateIpv6Address_step s c =
     (case state s of
        NO_GROUPS_YET \<Rightarrow>
          (if c = CHR '':'' then Some (s\<lparr> state := COLON_BUT_NO_GROUPS_YET \<rparr>)
           else if Contains DIGIT c then
             Some (s\<lparr> potentialIpv4AddressStart := position s, numDigits := 1,
                      state := IN_GROUP_COULD_BE_IPV4 \<rparr>)
           else if Contains HEXDIG c then
             Some (s\<lparr> numDigits := 1, state := IN_GROUP_NOT_IPV4 \<rparr>)
           else None)
      | COLON_BUT_NO_GROUPS_YET \<Rightarrow>
          (if c = CHR '':'' then
             Some (s\<lparr> doubleColonEncountered := True, state := AFTER_DOUBLE_COLON \<rparr>)
           else None)
      | AFTER_DOUBLE_COLON \<Rightarrow>
          (if Contains DIGIT c then
             (if numDigits s + 1 > 4 then None
              else Some (s\<lparr> potentialIpv4AddressStart := position s,
                             numDigits := numDigits s + 1,
                             state := IN_GROUP_COULD_BE_IPV4 \<rparr>))
           else if Contains HEXDIG c then
             (if numDigits s + 1 > 4 then None
              else Some (s\<lparr> numDigits := numDigits s + 1, state := IN_GROUP_NOT_IPV4 \<rparr>))
           else None)
      | IN_GROUP_NOT_IPV4 \<Rightarrow>
          (if c = CHR '':'' then
             Some (s\<lparr> numDigits := 0, numGroups := numGroups s + 1,
                      state := COLON_AFTER_GROUP \<rparr>)
           else if Contains HEXDIG c then
             (if numDigits s + 1 > 4 then None
              else Some (s\<lparr> numDigits := numDigits s + 1 \<rparr>))
           else None)
      | IN_GROUP_COULD_BE_IPV4 \<Rightarrow>
          (if c = CHR '':'' then
             Some (s\<lparr> numDigits := 0, numGroups := numGroups s + 1,
                      state := COLON_AFTER_GROUP \<rparr>)
           else if c = CHR ''.'' then
             Some (s\<lparr> ipv4AddressEncountered := True \<rparr>)
           else if Contains DIGIT c then
             (if numDigits s + 1 > 4 then None
              else Some (s\<lparr> numDigits := numDigits s + 1 \<rparr>))
           else if Contains HEXDIG c then
             (if numDigits s + 1 > 4 then None
              else Some (s\<lparr> numDigits := numDigits s + 1, state := IN_GROUP_NOT_IPV4 \<rparr>))
           else None)
      | COLON_AFTER_GROUP \<Rightarrow>
          (if c = CHR '':'' then
             (if doubleColonEncountered s then None
              else Some (s\<lparr> doubleColonEncountered := True, state := AFTER_DOUBLE_COLON \<rparr>))
           else if Contains DIGIT c then
             Some (s\<lparr> potentialIpv4AddressStart := position s,
                      numDigits := numDigits s + 1,
                      state := IN_GROUP_COULD_BE_IPV4 \<rparr>)
           else if Contains HEXDIG c then
             Some (s\<lparr> numDigits := numDigits s + 1, state := IN_GROUP_NOT_IPV4 \<rparr>)
           else None))"

text \<open>
  The loop: after the \<^verbatim>\<open>switch\<close>, an IPv4 part leaves the loop before \<^verbatim>\<open>++position\<close>;
  otherwise the position advances.
\<close>

fun ValidateIpv6Address_loop :: "Ipv6Scan \<Rightarrow> string \<Rightarrow> Ipv6Scan option" where
  "ValidateIpv6Address_loop s [] = Some s"
| "ValidateIpv6Address_loop s (c # cs) =
     (case ValidateIpv6Address_step s c of
        None \<Rightarrow> None
      | Some s' \<Rightarrow>
          if ipv4AddressEncountered s' then Some s'
          else ValidateIpv6Address_loop (s'\<lparr> position := position s' + 1 \<rparr>) cs)"

definition ValidateIpv6Address :: "string \<Rightarrow> bool" where
  "ValidateIpv6Address address =
     (case ValidateIpv6Address_loop
             \<lparr> state = NO_GROUPS_YET, numGroups = 0, numDigits = 0,
               doubleColonEncountered = False, potentialIpv4AddressStart = 0, position = 0,
               ipv4AddressEncountered = False \<rparr> address of
        None \<Rightarrow> False
      | Some s \<Rightarrow>
          (let s = (if state s = IN_GROUP_NOT_IPV4 \<or> state s = IN_GROUP_COULD_BE_IPV4
                    then s\<lparr> numGroups := numGroups s + 1 \<rparr> else s)
           in if position s = length address
                 \<and> (state s = COLON_BUT_NO_GROUPS_YET \<or> state s = COLON_AFTER_GROUP)
              then False
              else if ipv4AddressEncountered s
                      \<and> \<not> ValidateIpv4Address (drop (potentialIpv4AddressStart s) address)
              then False
              else
                (let s = (if ipv4AddressEncountered s
                          then s\<lparr> numGroups := numGroups s + 2 \<rparr> else s)
                 in if doubleColonEncountered s then numGroups s \<le> 7
                    else numGroups s = 8)))"

section \<open>Library functions the parser calls\<close>

text \<open>
  \<^verbatim>\<open>std::string::find(char)\<close>: the index of the first occurrence, \<open>None\<close> for
  \<^verbatim>\<open>npos\<close>. \<^verbatim>\<open>find_first_of\<close> is the same for a set of characters.
\<close>

definition find_first_of :: "string \<Rightarrow> string \<Rightarrow> nat option" where
  "find_first_of s chars =
     (if \<exists>c \<in> set s. c \<in> set chars
      then Some (length (takeWhile (\<lambda>c. c \<notin> set chars) s)) else None)"

definition find_char :: "string \<Rightarrow> char \<Rightarrow> nat option" where
  "find_char s c = find_first_of s [c]"

text \<open>
  \<^verbatim>\<open>s.substr(pos)\<close> and \<^verbatim>\<open>s.substr(pos, n)\<close>; every call in the source has
  \<^verbatim>\<open>pos <= s.size()\<close>, where \<^verbatim>\<open>substr\<close> does not throw.
\<close>

definition substr :: "string \<Rightarrow> nat \<Rightarrow> string" where
  "substr s pos = drop pos s"

definition substr_n :: "string \<Rightarrow> nat \<Rightarrow> nat \<Rightarrow> string" where
  "substr_n s pos n = take n (drop pos s)"

text \<open>\<^verbatim>\<open>std::tolower\<close> on an \<^verbatim>\<open>unsigned char\<close>, in the "C" locale.\<close>

definition tolower :: "char \<Rightarrow> char" where
  "tolower c = (if Contains (CharRange CHR ''A'' CHR ''Z'') c
                then char_of (of_char c + (32 :: nat)) else c)"

text \<open>
  \<^verbatim>\<open>std::stoi(str)\<close>, base 10, as \<^verbatim>\<open>strtol\<close> reads it: leading white space is skipped, one
  sign is optional, then the longest run of digits is read and whatever follows is
  ignored. No digit at all throws \<^verbatim>\<open>invalid_argument\<close>, a value outside \<^verbatim>\<open>int\<close> throws
  \<^verbatim>\<open>out_of_range\<close>; both are \<open>None\<close>.
\<close>

definition isspace :: "char \<Rightarrow> bool" where
  "isspace c = (c = CHR '' '' \<or> Contains (CharRange (CHR 0x09) (CHR 0x0D)) c)"

definition digits_value :: "string \<Rightarrow> int" where
  "digits_value ds = foldl (\<lambda>v c. v * 10 + (int (of_char c) - int (of_char CHR ''0''))) 0 ds"

definition stoi :: "string \<Rightarrow> int option" where
  "stoi str =
     (let s1 = dropWhile isspace str;
          negative = (s1 \<noteq> [] \<and> hd s1 = CHR ''-'');
          s2 = (if s1 \<noteq> [] \<and> (hd s1 = CHR ''-'' \<or> hd s1 = CHR ''+'') then tl s1 else s1);
          ds = takeWhile (Contains DIGIT) s2;
          v = (if negative then - digits_value ds else digits_value ds)
      in if ds = [] then None
         else if v < - (2 ^ 31) \<or> v > 2 ^ 31 - 1 then None
         else Some v)"

text \<open>\<^verbatim>\<open>ostream << uint16_t\<close>: the decimal digits of the value, no leading zero.\<close>

fun decimal :: "nat \<Rightarrow> string" where
  "decimal n =
     (if n < 10 then [char_of (n + of_char CHR ''0'')]
      else decimal (n div 10) @ [char_of (n mod 10 + of_char CHR ''0'')])"

section \<open>The parser\<close>

text \<open>
  \<^verbatim>\<open>LegalSchemeCheckStrategy\<close> returns a closure over the shared flag
  \<^verbatim>\<open>isFirstCharacter\<close>; the model passes the flag in and returns it with the answer.
  \<^verbatim>\<open>FailsMatch\<close> calls the strategy on every character and once more at the end.
\<close>

definition LegalSchemeCheckStrategy :: "bool \<Rightarrow> char \<Rightarrow> bool \<Rightarrow> bool \<times> bool" where
  "LegalSchemeCheckStrategy isFirstCharacter c atEnd =
     (if atEnd then (\<not> isFirstCharacter, isFirstCharacter)
      else ((if isFirstCharacter then Contains ALPHA c else Contains SCHEME_NOT_FIRST c), False))"

fun FailsMatch_loop :: "('s \<Rightarrow> char \<Rightarrow> bool \<Rightarrow> bool \<times> 's) \<Rightarrow> 's \<Rightarrow> string \<Rightarrow> bool" where
  "FailsMatch_loop stillPassing s [] = (\<not> fst (stillPassing s CHR '' '' True))"
| "FailsMatch_loop stillPassing s (c # cs) =
     (let r = stillPassing s c False
      in if \<not> fst r then True else FailsMatch_loop stillPassing (snd r) cs)"

definition FailsMatch :: "string \<Rightarrow> ('s \<Rightarrow> char \<Rightarrow> bool \<Rightarrow> bool \<times> 's) \<times> 's \<Rightarrow> bool" where
  "FailsMatch candidate strategy = FailsMatch_loop (fst strategy) (snd strategy) candidate"

text \<open>
  \<^verbatim>\<open>ParsePath\<close>. The splitting loop cuts the string at every \<^verbatim>\<open>/\<close>; then the segments
  are decoded in order, and the first failure fails the parse.
\<close>

function ParsePath_split :: "string \<Rightarrow> string list \<Rightarrow> string list" where
  "ParsePath_split pathString segments =
     (case find_char pathString CHR ''/'' of
        None \<Rightarrow> segments @ [pathString]
      | Some pathDelimiter \<Rightarrow>
          ParsePath_split (substr pathString (pathDelimiter + 1))
            (segments @ [take pathDelimiter pathString]))"
  by pat_completeness auto
termination
proof (relation "measure (\<lambda>(pathString, segments). length pathString)")
  show "wf (measure (\<lambda>(pathString :: string, segments :: string list). length pathString))"
    by simp
next
  fix pathString :: string and segments :: "string list" and pathDelimiter :: nat
  assume "find_char pathString CHR ''/'' = Some pathDelimiter"
  then have "pathString \<noteq> []"
    by (auto simp: find_char_def find_first_of_def split: if_splits)
  then show "((substr pathString (pathDelimiter + 1), segments @ [take pathDelimiter pathString]),
              (pathString, segments))
             \<in> measure (\<lambda>(pathString, segments). length pathString)"
    by (simp add: substr_def)
qed

fun ParsePath_decode :: "string list \<Rightarrow> string list option" where
  "ParsePath_decode [] = Some []"
| "ParsePath_decode (segment # rest) =
     (case DecodeElement segment PCHAR_NOT_PCT_ENCODED of
        None \<Rightarrow> None
      | Some segment' \<Rightarrow>
          (case ParsePath_decode rest of None \<Rightarrow> None | Some rest' \<Rightarrow> Some (segment' # rest')))"

definition ParsePath :: "Uri \<Rightarrow> string \<Rightarrow> Uri option" where
  "ParsePath u pathString =
     (let path0 = (if pathString = ''/'' then ['''']
                   else if pathString \<noteq> [] then ParsePath_split pathString []
                   else [])
      in case ParsePath_decode path0 of
           None \<Rightarrow> None
         | Some path1 \<Rightarrow> Some (u\<lparr> path := path1 \<rparr>))"

text \<open>
  \<^verbatim>\<open>ParseAuthority\<close>. The loop over the host and port keeps the parsing state, the host
  built so far, the percent decoder, the flag \<^verbatim>\<open>hostIsRegName\<close> and the port text.
\<close>

datatype HostParsingState =
  FIRST_CHARACTER
  | NOT_IP_LITERAL
  | PERCENT_ENCODED_CHARACTER
  | IP_LITERAL
  | IPV6_ADDRESS
  | IPV_FUTURE_NUMBER
  | IPV_FUTURE_BODY
  | GARBAGE_CHECK
  | PORT

record HostScan =
  hostParsingState :: HostParsingState
  scanHost :: string
  pecDecoder :: PercentEncodedCharacterDecoder
  hostIsRegName :: bool
  portString :: string

text \<open>
  The cases \<^verbatim>\<open>NOT_IP_LITERAL\<close> and \<^verbatim>\<open>IPV6_ADDRESS\<close> are also reached by falling through
  from \<^verbatim>\<open>FIRST_CHARACTER\<close> and \<^verbatim>\<open>IP_LITERAL\<close>, so each is a function of its own.
\<close>

definition ParseAuthority_NOT_IP_LITERAL :: "HostScan \<Rightarrow> char \<Rightarrow> HostScan option" where
  "ParseAuthority_NOT_IP_LITERAL s c =
     (if c = CHR ''%'' then
        Some (s\<lparr> pecDecoder := ExpectFirstDigit,
                 hostParsingState := PERCENT_ENCODED_CHARACTER \<rparr>)
      else if c = CHR '':'' then Some (s\<lparr> hostParsingState := PORT \<rparr>)
      else if Contains REG_NAME_NOT_PCT_ENCODED c then Some (s\<lparr> scanHost := scanHost s @ [c] \<rparr>)
      else None)"

definition ParseAuthority_IPV6_ADDRESS :: "HostScan \<Rightarrow> char \<Rightarrow> HostScan option" where
  "ParseAuthority_IPV6_ADDRESS s c =
     (if c = CHR '']'' then
        (if \<not> ValidateIpv6Address (scanHost s) then None
         else Some (s\<lparr> hostParsingState := GARBAGE_CHECK \<rparr>))
      else Some (s\<lparr> scanHost := scanHost s @ [c] \<rparr>))"

definition ParseAuthority_step :: "HostScan \<Rightarrow> char \<Rightarrow> HostScan option" where
  "ParseAuthority_step s c =
     (case hostParsingState s of
        FIRST_CHARACTER \<Rightarrow>
          (if c = CHR ''['' then Some (s\<lparr> hostParsingState := IP_LITERAL \<rparr>)
           else ParseAuthority_NOT_IP_LITERAL
                  (s\<lparr> hostParsingState := NOT_IP_LITERAL, hostIsRegName := True \<rparr>) c)
      | NOT_IP_LITERAL \<Rightarrow> ParseAuthority_NOT_IP_LITERAL s c
      | PERCENT_ENCODED_CHARACTER \<Rightarrow>
          (case NextEncodedCharacter c (pecDecoder s) of
             None \<Rightarrow> None
           | Some d \<Rightarrow>
               if Done d
               then Some (s\<lparr> pecDecoder := d, hostParsingState := NOT_IP_LITERAL,
                             scanHost := scanHost s @ [GetDecodedCharacter d] \<rparr>)
               else Some (s\<lparr> pecDecoder := d \<rparr>))
      | IP_LITERAL \<Rightarrow>
          (if c = CHR ''v'' then
             Some (s\<lparr> scanHost := scanHost s @ [c], hostParsingState := IPV_FUTURE_NUMBER \<rparr>)
           else ParseAuthority_IPV6_ADDRESS (s\<lparr> hostParsingState := IPV6_ADDRESS \<rparr>) c)
      | IPV6_ADDRESS \<Rightarrow> ParseAuthority_IPV6_ADDRESS s c
      | IPV_FUTURE_NUMBER \<Rightarrow>
          (if c = CHR ''.'' then
             Some (s\<lparr> hostParsingState := IPV_FUTURE_BODY, scanHost := scanHost s @ [c] \<rparr>)
           else if \<not> Contains HEXDIG c then None
           else Some (s\<lparr> scanHost := scanHost s @ [c] \<rparr>))
      | IPV_FUTURE_BODY \<Rightarrow>
          (if c = CHR '']'' then Some (s\<lparr> hostParsingState := GARBAGE_CHECK \<rparr>)
           else if \<not> Contains IPV_FUTURE_LAST_PART c then None
           else Some (s\<lparr> scanHost := scanHost s @ [c] \<rparr>))
      | GARBAGE_CHECK \<Rightarrow>
          (if c = CHR '':'' then Some (s\<lparr> hostParsingState := PORT \<rparr>) else None)
      | PORT \<Rightarrow> Some (s\<lparr> portString := portString s @ [c] \<rparr>))"

fun ParseAuthority_loop :: "HostScan \<Rightarrow> string \<Rightarrow> HostScan option" where
  "ParseAuthority_loop s [] = Some s"
| "ParseAuthority_loop s (c # cs) =
     (case ParseAuthority_step s c of
        None \<Rightarrow> None
      | Some s' \<Rightarrow> ParseAuthority_loop s' cs)"

text \<open>
  The part of \<^verbatim>\<open>ParseAuthority\<close> after the user info: host and port. A port is stored
  only when the port text is not empty; otherwise the old port number stays.
\<close>

definition ParseAuthority_hostPort :: "Uri \<Rightarrow> string \<Rightarrow> Uri option" where
  "ParseAuthority_hostPort u hostPortString =
     (case ParseAuthority_loop
             \<lparr> hostParsingState = FIRST_CHARACTER, scanHost = [],
               pecDecoder = ExpectFirstDigit, hostIsRegName = False, portString = [] \<rparr>
             hostPortString of
        None \<Rightarrow> None
      | Some s \<Rightarrow>
          if hostParsingState s \<noteq> FIRST_CHARACTER
             \<and> hostParsingState s \<noteq> NOT_IP_LITERAL
             \<and> hostParsingState s \<noteq> GARBAGE_CHECK
             \<and> hostParsingState s \<noteq> PORT
          then None
          else
            (let u = u\<lparr> host := (if hostIsRegName s then map tolower (scanHost s)
                                   else scanHost s) \<rparr>
             in if portString s = [] then Some (u\<lparr> hasPort := False \<rparr>)
                else
                  (case stoi (portString s) of
                     None \<Rightarrow> None
                   | Some portAsInt \<Rightarrow>
                       if portAsInt < 0 \<or> portAsInt > 65535 then None
                       else Some (u\<lparr> port := word_of_int portAsInt, hasPort := True \<rparr>))))"

definition ParseAuthority :: "Uri \<Rightarrow> string \<Rightarrow> Uri option" where
  "ParseAuthority u authorityString =
     (case find_char authorityString CHR ''@'' of
        None \<Rightarrow> ParseAuthority_hostPort (u\<lparr> userInfo := [] \<rparr>) authorityString
      | Some userInfoDelimiter \<Rightarrow>
          (case DecodeElement (substr_n authorityString 0 userInfoDelimiter)
                  USER_INFO_NOT_PCT_ENCODED of
             None \<Rightarrow> None
           | Some userInfo' \<Rightarrow>
               ParseAuthority_hostPort (u\<lparr> userInfo := userInfo' \<rparr>)
                 (substr authorityString (userInfoDelimiter + 1))))"

text \<open>\<^verbatim>\<open>ParseScheme\<close> returns the object and the rest of the string.\<close>

definition ParseScheme :: "Uri \<Rightarrow> string \<Rightarrow> (Uri \<times> string) option" where
  "ParseScheme u uriString =
     (let authorityOrPathDelimiterStart =
            (case find_char uriString CHR ''/'' of None \<Rightarrow> length uriString | Some n \<Rightarrow> n)
      in case find_char (substr_n uriString 0 authorityOrPathDelimiterStart) CHR '':'' of
           None \<Rightarrow> Some (u\<lparr> scheme := [] \<rparr>, uriString)
         | Some schemeEnd \<Rightarrow>
             (let scheme' = substr_n uriString 0 schemeEnd
              in if FailsMatch scheme' (LegalSchemeCheckStrategy, True) then None
                 else Some (u\<lparr> scheme := map tolower scheme' \<rparr>,
                            substr uriString (schemeEnd + 1))))"

definition SplitAuthorityFromPathAndParseIt :: "Uri \<Rightarrow> string \<Rightarrow> (Uri \<times> string) option" where
  "SplitAuthorityFromPathAndParseIt u authorityAndPathString =
     (if substr_n authorityAndPathString 0 2 = ''//'' then
        (let authorityAndPathString = substr authorityAndPathString 2;
             authorityEnd =
               (case find_char authorityAndPathString CHR ''/'' of
                  None \<Rightarrow> length authorityAndPathString | Some n \<Rightarrow> n);
             pathString = substr authorityAndPathString authorityEnd;
             authorityString = substr_n authorityAndPathString 0 authorityEnd
         in case ParseAuthority u authorityString of
              None \<Rightarrow> None
            | Some u' \<Rightarrow> Some (u', pathString))
      else Some (u\<lparr> userInfo := [], host := [], hasPort := False \<rparr>, authorityAndPathString))"

definition SetDefaultPathIfAuthorityPresentAndPathEmpty :: "Uri \<Rightarrow> Uri" where
  "SetDefaultPathIfAuthorityPresentAndPathEmpty u =
     (if host u \<noteq> [] \<and> path u = [] then u\<lparr> path := path u @ [''''] \<rparr> else u)"

definition ParseQuery :: "Uri \<Rightarrow> string \<Rightarrow> Uri option" where
  "ParseQuery u queryWithDelimiter =
     (let hasQuery' = (queryWithDelimiter \<noteq> []);
          query' = (if hasQuery' then substr queryWithDelimiter 1 else [])
      in case DecodeQueryOrFragment query' of
           None \<Rightarrow> None
         | Some q \<Rightarrow> Some (u\<lparr> hasQuery := hasQuery', query := q \<rparr>))"

definition ParseFragment :: "Uri \<Rightarrow> string \<Rightarrow> (Uri \<times> string) option" where
  "ParseFragment u queryAndOrFragment =
     (case find_char queryAndOrFragment CHR ''#'' of
        None \<Rightarrow>
          (case DecodeQueryOrFragment [] of
             None \<Rightarrow> None
           | Some f \<Rightarrow> Some (u\<lparr> hasFragment := False, fragment := f \<rparr>, queryAndOrFragment))
      | Some fragmentDelimiter \<Rightarrow>
          (case DecodeQueryOrFragment (substr queryAndOrFragment (fragmentDelimiter + 1)) of
             None \<Rightarrow> None
           | Some f \<Rightarrow>
               Some (u\<lparr> hasFragment := True, fragment := f \<rparr>,
                     substr_n queryAndOrFragment 0 fragmentDelimiter)))"

text \<open>
  \<^verbatim>\<open>ParseFromString\<close> on the object \<open>u\<close>: \<open>None\<close> is \<^verbatim>\<open>return false\<close>, \<open>Some\<close> the
  object after a successful parse.
\<close>

definition ParseFromString :: "Uri \<Rightarrow> string \<Rightarrow> Uri option" where
  "ParseFromString u uriString =
     (case ParseScheme u uriString of
        None \<Rightarrow> None
      | Some (u1, rest) \<Rightarrow>
          (let authorityAndPathString =
                 (case find_first_of rest ''?#'' of
                    None \<Rightarrow> rest | Some pathEnd \<Rightarrow> substr_n rest 0 pathEnd);
               queryAndOrFragment = substr rest (length authorityAndPathString)
           in case SplitAuthorityFromPathAndParseIt u1 authorityAndPathString of
                None \<Rightarrow> None
              | Some (u2, pathString) \<Rightarrow>
                  (case ParsePath u2 pathString of
                     None \<Rightarrow> None
                   | Some u3 \<Rightarrow>
                       (case ParseFragment (SetDefaultPathIfAuthorityPresentAndPathEmpty u3)
                               queryAndOrFragment of
                          None \<Rightarrow> None
                        | Some (u5, rest') \<Rightarrow> ParseQuery u5 rest'))))"

section \<open>The serializer\<close>

text \<open>
  The loop of \<^verbatim>\<open>GenerateString\<close> over the path: the state is the buffer and the index
  \<^verbatim>\<open>i\<close>; a \<^verbatim>\<open>/\<close> follows every segment but the last.
\<close>

definition GenerateString_segment :: "nat \<Rightarrow> string \<times> nat \<Rightarrow> string \<Rightarrow> string \<times> nat" where
  "GenerateString_segment pathSize st segment =
     (let buffer = fst st @ EncodeElement segment PCHAR_NOT_PCT_ENCODED;
          i = snd st
      in ((if i + 1 < pathSize then buffer @ ''/'' else buffer), i + 1))"

definition GenerateString :: "Uri \<Rightarrow> string" where
  "GenerateString u =
     (let buffer = (if scheme u \<noteq> [] then scheme u @ '':'' else []);
          buffer =
            (if HasAuthority u then
               (let buffer = buffer @ ''//'';
                    buffer = (if userInfo u \<noteq> []
                              then buffer @ EncodeElement (userInfo u) USER_INFO_NOT_PCT_ENCODED
                                   @ ''@''
                              else buffer);
                    buffer = (if host u \<noteq> [] then
                                (if ValidateIpv6Address (host u)
                                 then buffer @ ''['' @ map tolower (host u) @ '']''
                                 else buffer @ EncodeElement (host u) REG_NAME_NOT_PCT_ENCODED)
                              else buffer)
                in if hasPort u then buffer @ '':'' @ decimal (unat (port u)) else buffer)
             else buffer);
          buffer = (if IsPathAbsolute u \<and> length (path u) = 1 then buffer @ ''/'' else buffer);
          buffer = fst (foldl (GenerateString_segment (length (path u))) (buffer, 0) (path u));
          buffer = (if hasQuery u
                    then buffer @ ''?''
                         @ EncodeElement (query u) QUERY_NOT_PCT_ENCODED_WITHOUT_PLUS
                    else buffer)
      in if hasFragment u
         then buffer @ ''#'' @ EncodeElement (fragment u) QUERY_OR_FRAGMENT_NOT_PCT_ENCODED
         else buffer)"

section \<open>Resolution on strings\<close>

text \<open>
  Parse a base and a reference into fresh objects, resolve, and serialize the target;
  \<open>None\<close> when one of the two does not parse.
\<close>

definition resolve_strings :: "string \<Rightarrow> string \<Rightarrow> string option" where
  "resolve_strings baseString referenceString =
     (case ParseFromString emptyUri baseString of
        None \<Rightarrow> None
      | Some base \<Rightarrow>
          (case ParseFromString emptyUri referenceString of
             None \<Rightarrow> None
           | Some relativeReference \<Rightarrow> Some (GenerateString (Resolve base relativeReference))))"

section \<open>Predicates used in the proofs\<close>

text \<open>
  A path is in normal form when it has no dot segment and no two consecutive empty
  segments.
\<close>

fun clean :: "string list \<Rightarrow> bool" where
  "clean [] = True"
| "clean [x] = (x \<noteq> ''.'' \<and> x \<noteq> ''..'')"
| "clean (x # y # zs) = (x \<noteq> ''.'' \<and> x \<noteq> ''..'' \<and> (x \<noteq> [] \<or> y \<noteq> []) \<and> clean (y # zs))"

text \<open>
  Loop invariant of \<^verbatim>\<open>NormalizePath\<close>: the emitted path is in normal form, and the
  flag is set whenever the last emitted segment is empty.
\<close>

definition walk_inv :: "Uri \<times> bool \<Rightarrow> bool" where
  "walk_inv st = (clean (path (fst st))
     \<and> (path (fst st) \<noteq> [] \<and> last (path (fst st)) = [] \<longrightarrow> snd st))"

text \<open>
  Loop invariant for a relative input, after its first segment: the emitted path is
  not absolute, and the flag is set whenever the emitted path is empty.
\<close>

definition rel_inv :: "Uri \<times> bool \<Rightarrow> bool" where
  "rel_inv st = ((path (fst st) = [] \<longrightarrow> snd st) \<and> \<not> IsPathAbsolute (fst st))"

text \<open>What \<^verbatim>\<open>EncodeElement\<close> emits for one byte.\<close>

definition enc :: "CharacterSet \<Rightarrow> char \<Rightarrow> string" where
  "enc S c = (if Contains S c then [c] else [CHR ''%'', MakeHexDigit (of_char c div 16),
                             MakeHexDigit (of_char c mod 16)])"

text \<open>
  The pieces of the string \<^verbatim>\<open>GenerateString\<close> builds, one per component, and the
  \<^verbatim>\<open>/\<close>-separated concatenation the path loop produces.
\<close>

fun join_path :: "string list \<Rightarrow> string" where
  "join_path [] = []"
| "join_path [s] = s"
| "join_path (s # t # rest) = s @ ''/'' @ join_path (t # rest)"

definition schemePart :: "Uri \<Rightarrow> string" where
  "schemePart u = (if scheme u \<noteq> [] then scheme u @ '':'' else [])"

definition userInfoPart :: "Uri \<Rightarrow> string" where
  "userInfoPart u =
     (if userInfo u \<noteq> [] then EncodeElement (userInfo u) USER_INFO_NOT_PCT_ENCODED @ ''@''
      else [])"

definition hostPart :: "Uri \<Rightarrow> string" where
  "hostPart u =
     (if host u \<noteq> [] then
        (if ValidateIpv6Address (host u) then ''['' @ map tolower (host u) @ '']''
         else EncodeElement (host u) REG_NAME_NOT_PCT_ENCODED)
      else [])"

definition portPart :: "Uri \<Rightarrow> string" where
  "portPart u = (if hasPort u then '':'' @ decimal (unat (port u)) else [])"

definition authorityPart :: "Uri \<Rightarrow> string" where
  "authorityPart u =
     (if HasAuthority u then ''//'' @ userInfoPart u @ hostPart u @ portPart u else [])"

definition pathPart :: "Uri \<Rightarrow> string" where
  "pathPart u =
     (if path u = [''''] then ''/''
      else join_path (map (\<lambda>segment. EncodeElement segment PCHAR_NOT_PCT_ENCODED) (path u)))"

definition queryPart :: "Uri \<Rightarrow> string" where
  "queryPart u =
     (if hasQuery u then ''?'' @ EncodeElement (query u) QUERY_NOT_PCT_ENCODED_WITHOUT_PLUS
      else [])"

definition fragmentPart :: "Uri \<Rightarrow> string" where
  "fragmentPart u =
     (if hasFragment u
      then ''#'' @ EncodeElement (fragment u) QUERY_OR_FRAGMENT_NOT_PCT_ENCODED else [])"

text \<open>The scheme syntax \<^verbatim>\<open>LegalSchemeCheckStrategy\<close> accepts.\<close>

definition legal_scheme :: "string \<Rightarrow> bool" where
  "legal_scheme sch = (case sch of [] \<Rightarrow> False
     | c # cs \<Rightarrow> Contains ALPHA c \<and> list_all (Contains SCHEME_NOT_FIRST) cs)"

section \<open>Equality and presence flags\<close>

text \<open>
  C8. Two URIs that agree on scheme, user info, host and path, and that both have the
  port, query and fragment flags cleared, are equal under \<^verbatim>\<open>operator==\<close>, whatever
  port number, query string and fragment string they still store.
\<close>

theorem operator_eq_ignores_stale_values:
  assumes "scheme a = scheme b" and "userInfo a = userInfo b" and "host a = host b"
    and "path a = path b"
    and "\<not> hasPort a" and "\<not> hasPort b"
    and "\<not> hasQuery a" and "\<not> hasQuery b"
    and "\<not> hasFragment a" and "\<not> hasFragment b"
  shows "operator_eq a b"
  using assms by (simp add: operator_eq_def)

text \<open>
  The instance named by the claim: \<^verbatim>\<open>SetPort\<close> followed by \<^verbatim>\<open>ClearPort\<close> leaves the
  port number behind (80 against 443 here, and two different stale query and fragment
  strings), and the two values still compare equal.
\<close>

theorem operator_eq_ignores_stale_values_witness:
  "operator_eq
     (ClearFragment (SetFragment ''x'' (ClearQuery (SetQuery ''q'' (ClearPort (SetPort 80 emptyUri))))))
     (ClearFragment (SetFragment ''y'' (ClearQuery (SetQuery ''r'' (ClearPort (SetPort 443 emptyUri))))))
   \<and> port (ClearPort (SetPort 80 emptyUri)) \<noteq> port (ClearPort (SetPort 443 emptyUri))"
  using operator_eq_ignores_stale_values
    [of "ClearFragment (SetFragment ''x'' (ClearQuery (SetQuery ''q'' (ClearPort (SetPort 80 emptyUri)))))"
        "ClearFragment (SetFragment ''y'' (ClearQuery (SetQuery ''r'' (ClearPort (SetPort 443 emptyUri)))))"]
  by (simp add: SetPort_def ClearPort_def SetQuery_def ClearQuery_def SetFragment_def
      ClearFragment_def emptyUri_def)

section \<open>Path normalization\<close>

lemma clean_snoc:
  "clean (p @ [s]) \<longleftrightarrow> clean p \<and> s \<noteq> ''.'' \<and> s \<noteq> ''..'' \<and> (p \<noteq> [] \<and> last p = [] \<longrightarrow> s \<noteq> [])"
  by (induction p rule: clean.induct) auto

lemma clean_butlast: "clean p \<Longrightarrow> clean (butlast p)"
  by (induction p rule: clean.induct) (auto split: if_splits)

lemma clean_prefix: "clean (p @ q) \<Longrightarrow> clean p"
proof (induction q rule: rev_induct)
  case Nil then show ?case by simp
next
  case (snoc x xs)
  then have "clean ((p @ xs) @ [x])" by simp
  then have "clean (p @ xs)" by (simp only: clean_snoc)
  with snoc show ?case by simp
qed

lemma step_clean:
  assumes "s \<noteq> ''.''" "s \<noteq> ''..''" "\<not> adl \<or> s \<noteq> []"
  shows "NormalizePath_step (u, adl) s = (u\<lparr>path := path u @ [s]\<rparr>, s = [])"
  using assms by (simp add: NormalizePath_step_def)

lemma walk_clean:
  "clean (path u @ xs) \<Longrightarrow> adl = (path u \<noteq> [] \<and> last (path u) = []) \<Longrightarrow>
   foldl NormalizePath_step (u, adl) xs
     = (u\<lparr>path := path u @ xs\<rparr>, (path u @ xs \<noteq> [] \<and> last (path u @ xs) = []))"
proof (induction xs arbitrary: u adl)
  case Nil
  then show ?case by simp
next
  case (Cons x xs)
  from Cons.prems(1) have c1: "clean ((path u @ [x]) @ xs)" by simp
  then have c2: "clean (path u @ [x])" by (rule clean_prefix)
  then have x: "x \<noteq> ''.''" "x \<noteq> ''..''" "\<not> adl \<or> x \<noteq> []"
    using Cons.prems(2) by (auto simp: clean_snoc)
  have st: "NormalizePath_step (u, adl) x = (u\<lparr>path := path u @ [x]\<rparr>, x = [])"
    using x by (rule step_clean)
  have "foldl NormalizePath_step (u\<lparr>path := path u @ [x]\<rparr>, x = []) xs
     = (u\<lparr>path := path u @ [x]\<rparr>\<lparr>path := path (u\<lparr>path := path u @ [x]\<rparr>) @ xs\<rparr>,
        (path (u\<lparr>path := path u @ [x]\<rparr>) @ xs \<noteq> [] \<and> last (path (u\<lparr>path := path u @ [x]\<rparr>) @ xs) = []))"
    by (rule Cons.IH) (use c1 in simp_all)
  with st show ?case by simp
qed

lemma step_inv: "walk_inv (u, adl) \<Longrightarrow> walk_inv (NormalizePath_step (u, adl) s)"
proof -
  assume inv: "walk_inv (u, adl)"
  consider (dot) "s = ''.''" | (dotdot) "s = ''..''" | (other) "s \<noteq> ''.''" "s \<noteq> ''..''" by blast
  then show ?thesis
  proof cases
    case dot
    with inv show ?thesis by (simp add: NormalizePath_step_def walk_inv_def)
  next
    case dotdot
    with inv show ?thesis by (simp add: NormalizePath_step_def walk_inv_def clean_butlast)
  next
    case other
    with inv show ?thesis by (simp add: NormalizePath_step_def walk_inv_def clean_snoc)
  qed
qed

lemma walk_inv_foldl: "walk_inv st \<Longrightarrow> walk_inv (foldl NormalizePath_step st xs)"
proof (induction xs arbitrary: st)
  case Nil then show ?case by simp
next
  case (Cons x xs)
  obtain u adl where st: "st = (u, adl)" by (cases st)
  with Cons.prems have "walk_inv (NormalizePath_step st x)" by (simp add: step_inv)
  then show ?case using Cons.IH by simp
qed

lemma NormalizePath_clean: "clean (path (NormalizePath u))"
proof -
  let ?st = "foldl NormalizePath_step (u\<lparr>path := []\<rparr>, False) (path u)"
  have "walk_inv ?st" by (rule walk_inv_foldl) (simp add: walk_inv_def)
  then show ?thesis
    by (simp add: NormalizePath_def Let_def walk_inv_def clean_snoc)
qed

lemma NormalizePath_clean_id: "clean (path u) \<Longrightarrow> NormalizePath u = u"
proof -
  assume c: "clean (path u)"
  have "foldl NormalizePath_step (u\<lparr>path := []\<rparr>, False) (path u)
    = (u\<lparr>path := []\<rparr>\<lparr>path := path (u\<lparr>path := []\<rparr>) @ path u\<rparr>,
        (path (u\<lparr>path := []\<rparr>) @ path u \<noteq> [] \<and> last (path (u\<lparr>path := []\<rparr>) @ path u) = []))"
    by (rule walk_clean) (use c in simp_all)
  then show ?thesis
    by (simp add: NormalizePath_def Let_def)
qed

text \<open>
  C7. \<^verbatim>\<open>NormalizePath\<close> is idempotent: normalizing the result of a normalization
  leaves the whole value (path and every other field) unchanged.
\<close>

theorem NormalizePath_idempotent: "NormalizePath (NormalizePath u) = NormalizePath u"
  by (rule NormalizePath_clean_id) (rule NormalizePath_clean)

theorem NormalizePath_idempotent_witness:
  "NormalizePath (NormalizePath (emptyUri\<lparr>path := ['''', ''a'', ''.'', '''', ''b'', ''..'', ''..'', ''c'', ''.'']\<rparr>))
     = NormalizePath (emptyUri\<lparr>path := ['''', ''a'', ''.'', '''', ''b'', ''..'', ''..'', ''c'', ''.'']\<rparr>)
   \<and> path (NormalizePath (emptyUri\<lparr>path := ['''', ''a'', ''.'', '''', ''b'', ''..'', ''..'', ''c'', ''.'']\<rparr>))
     = ['''', ''c'', '''']"
  using NormalizePath_idempotent
    [of "emptyUri\<lparr>path := ['''', ''a'', ''.'', '''', ''b'', ''..'', ''..'', ''c'', ''.'']\<rparr>"]
  by (simp add: NormalizePath_def NormalizePath_step_def CanNavigatePathUpOneLevel_def
      IsPathAbsolute_def emptyUri_def)

lemma step_keeps_absolute:
  "IsPathAbsolute u \<Longrightarrow> IsPathAbsolute (fst (NormalizePath_step (u, adl) s))"
  by (cases "path u"; cases "tl (path u)")
     (simp_all add: NormalizePath_step_def IsPathAbsolute_def CanNavigatePathUpOneLevel_def)

lemma walk_keeps_absolute:
  "IsPathAbsolute (fst st) \<Longrightarrow> IsPathAbsolute (fst (foldl NormalizePath_step st xs))"
proof (induction xs arbitrary: st)
  case Nil then show ?case by simp
next
  case (Cons x xs)
  obtain u adl where st: "st = (u, adl)" by (cases st)
  with Cons.prems have "IsPathAbsolute (fst (NormalizePath_step st x))"
    by (simp add: step_keeps_absolute)
  then show ?case using Cons.IH by simp
qed

lemma step_rel_inv: "rel_inv (u, adl) \<Longrightarrow> rel_inv (NormalizePath_step (u, adl) s)"
  by (cases "path u"; cases "tl (path u)")
     (auto simp add: NormalizePath_step_def IsPathAbsolute_def CanNavigatePathUpOneLevel_def rel_inv_def)

lemma walk_rel_inv: "rel_inv st \<Longrightarrow> rel_inv (foldl NormalizePath_step st xs)"
proof (induction xs arbitrary: st)
  case Nil then show ?case by simp
next
  case (Cons x xs)
  obtain u adl where st: "st = (u, adl)" by (cases st)
  with Cons.prems have "rel_inv (NormalizePath_step st x)" by (simp add: step_rel_inv)
  then show ?case using Cons.IH by simp
qed

lemma first_step_rel: "s \<noteq> [] \<Longrightarrow> rel_inv (NormalizePath_step (u\<lparr>path := []\<rparr>, False) s)"
  by (simp add: NormalizePath_step_def rel_inv_def IsPathAbsolute_def Let_def)

lemma first_step_abs: "IsPathAbsolute (fst (NormalizePath_step (u\<lparr>path := []\<rparr>, False) []))"
  by (simp add: NormalizePath_step_def IsPathAbsolute_def)

lemma final_abs:
  "IsPathAbsolute (if b \<and> (path u \<noteq> [] \<and> c) then u\<lparr>path := path u @ [[]]\<rparr> else u) = IsPathAbsolute u"
  by (cases "path u") (simp_all add: IsPathAbsolute_def)

text \<open>
  C10. \<^verbatim>\<open>NormalizePath\<close> preserves absoluteness in both directions: the result is
  absolute (non-empty with an empty first segment) iff the input was.
\<close>

theorem NormalizePath_absolute_iff: "IsPathAbsolute (NormalizePath u) = IsPathAbsolute u"
proof (cases "path u")
  case Nil
  then show ?thesis by (simp add: NormalizePath_def IsPathAbsolute_def)
next
  case (Cons s rest)
  let ?st1 = "NormalizePath_step (u\<lparr>path := []\<rparr>, False) s"
  let ?st = "foldl NormalizePath_step ?st1 rest"
  have N: "NormalizePath u = (if snd ?st \<and> (path (fst ?st) \<noteq> [] \<and> last (path (fst ?st)) \<noteq> [])
         then (fst ?st)\<lparr> path := path (fst ?st) @ [[]] \<rparr> else fst ?st)"
    by (simp add: NormalizePath_def Cons Let_def)
  have A: "IsPathAbsolute (NormalizePath u) = IsPathAbsolute (fst ?st)"
    unfolding N by (rule final_abs)
  show ?thesis
  proof (cases "s = []")
    case True
    have "IsPathAbsolute (fst ?st)"
      by (rule walk_keeps_absolute) (simp add: True first_step_abs)
    moreover have "IsPathAbsolute u" using Cons True by (simp add: IsPathAbsolute_def)
    ultimately show ?thesis using A by simp
  next
    case False
    have "rel_inv ?st" by (rule walk_rel_inv) (rule first_step_rel[OF False])
    then have "\<not> IsPathAbsolute (fst ?st)" by (simp add: rel_inv_def)
    moreover have "\<not> IsPathAbsolute u" using Cons False by (simp add: IsPathAbsolute_def)
    ultimately show ?thesis using A by simp
  qed
qed

theorem NormalizePath_absolute_iff_witness:
  "IsPathAbsolute (NormalizePath (emptyUri\<lparr>path := ['''', ''a'', ''..'', ''..'']\<rparr>))
   \<and> IsPathAbsolute (emptyUri\<lparr>path := ['''', ''a'', ''..'', ''..'']\<rparr>)
   \<and> \<not> IsPathAbsolute (NormalizePath (emptyUri\<lparr>path := [''a'', ''..'', '''', ''b'']\<rparr>))
   \<and> \<not> IsPathAbsolute (emptyUri\<lparr>path := [''a'', ''..'', '''', ''b'']\<rparr>)"
  using NormalizePath_absolute_iff [of "emptyUri\<lparr>path := ['''', ''a'', ''..'', ''..'']\<rparr>"]
    NormalizePath_absolute_iff [of "emptyUri\<lparr>path := [''a'', ''..'', '''', ''b'']\<rparr>"]
  by (simp add: IsPathAbsolute_def emptyUri_def)

text \<open>
  C5. On a \<^verbatim>\<open>..\<close> segment the loop sets the flag and removes the last emitted segment
  exactly when the emitted path is non-empty and either not absolute or longer than one
  segment; no iteration makes an absolute emitted path non-absolute, so the root
  sentinel is never popped. The two paths of the claim normalize as it says.
\<close>

theorem NormalizePath_dotdot:
  "path (fst (NormalizePath_step (u, adl) ''..''))
     = (if path u \<noteq> [] \<and> (\<not> IsPathAbsolute u \<or> length (path u) > 1)
        then butlast (path u) else path u)
   \<and> snd (NormalizePath_step (u, adl) ''..'')
   \<and> (IsPathAbsolute u \<longrightarrow> IsPathAbsolute (fst (NormalizePath_step (u, adl) s)))
   \<and> path (NormalizePath (u\<lparr>path := [''a'', ''b'', ''..'', ''c'']\<rparr>)) = [''a'', ''c'']
   \<and> path (NormalizePath (u\<lparr>path := ['''', ''a'', ''b'', ''..'', ''..'', ''..'', ''g'']\<rparr>))
       = ['''', ''g'']"
proof (intro conjI)
  show "path (fst (NormalizePath_step (u, adl) ''..''))
     = (if path u \<noteq> [] \<and> (\<not> IsPathAbsolute u \<or> length (path u) > 1)
        then butlast (path u) else path u)"
    by (simp add: NormalizePath_step_def CanNavigatePathUpOneLevel_def)
  show "snd (NormalizePath_step (u, adl) ''..'')"
    by (simp add: NormalizePath_step_def)
  show "IsPathAbsolute u \<longrightarrow> IsPathAbsolute (fst (NormalizePath_step (u, adl) s))"
    by (simp add: step_keeps_absolute)
  show "path (NormalizePath (u\<lparr>path := [''a'', ''b'', ''..'', ''c'']\<rparr>)) = [''a'', ''c'']"
    by (simp add: NormalizePath_def NormalizePath_step_def CanNavigatePathUpOneLevel_def
        IsPathAbsolute_def)
  show "path (NormalizePath (u\<lparr>path := ['''', ''a'', ''b'', ''..'', ''..'', ''..'', ''g'']\<rparr>))
       = ['''', ''g'']"
    by (simp add: NormalizePath_def NormalizePath_step_def CanNavigatePathUpOneLevel_def
        IsPathAbsolute_def)
qed

text \<open>At the root: the emitted path \<^verbatim>\<open>[""]\<close> is absolute and stays as it is on \<^verbatim>\<open>..\<close>.\<close>

theorem NormalizePath_dotdot_witness:
  "IsPathAbsolute (emptyUri\<lparr>path := ['''']\<rparr>)
   \<and> path (fst (NormalizePath_step (emptyUri\<lparr>path := ['''']\<rparr>, False) ''..'')) = ['''']
   \<and> IsPathAbsolute (fst (NormalizePath_step (emptyUri\<lparr>path := ['''']\<rparr>, False) ''..''))
   \<and> path (NormalizePath (emptyUri\<lparr>path := [''a'', ''b'', ''..'', ''c'']\<rparr>)) = [''a'', ''c'']"
  using NormalizePath_dotdot [of "emptyUri\<lparr>path := ['''']\<rparr>" False "''..''"]
  by (simp add: IsPathAbsolute_def emptyUri_def)

section \<open>Reference resolution\<close>

lemma Resolve_examples:
  "resolve_strings ''http://a/b/c/d;p?q'' '''' = Some ''http://a/b/c/d;p?q''"
  "resolve_strings ''http://a/b/c/d;p?q'' ''?y'' = Some ''http://a/b/c/d;p?y''"
  by code_simp+

text \<open>
  C4. Resolving a reference that has no scheme, an empty host and an empty path: the
  target takes the base's path unchanged, the reference's query (flag and value) when
  the reference's query string is non-empty and the base's otherwise, scheme and
  authority from the base, and the fragment (flag and value) from the reference.
\<close>

theorem Resolve_empty_path:
  assumes "scheme r = []" and "host r = []" and "path r = []"
  shows "path (Resolve b r) = path b
    \<and> (query r \<noteq> [] \<longrightarrow>
          hasQuery (Resolve b r) = hasQuery r \<and> query (Resolve b r) = query r)
    \<and> (query r = [] \<longrightarrow>
          hasQuery (Resolve b r) = hasQuery b \<and> query (Resolve b r) = query b)
    \<and> scheme (Resolve b r) = scheme b
    \<and> host (Resolve b r) = host b \<and> userInfo (Resolve b r) = userInfo b
    \<and> hasPort (Resolve b r) = hasPort b \<and> port (Resolve b r) = port b
    \<and> hasFragment (Resolve b r) = hasFragment r \<and> fragment (Resolve b r) = fragment r
    \<and> resolve_strings ''http://a/b/c/d;p?q'' '''' = Some ''http://a/b/c/d;p?q''
    \<and> resolve_strings ''http://a/b/c/d;p?q'' ''?y'' = Some ''http://a/b/c/d;p?y''"
  using assms
  by (simp add: Resolve_def CopyScheme_def CopyAuthority_def CopyQuery_def CopyFragment_def
      emptyUri_def Let_def Resolve_examples)

text \<open>
  The reference \<^verbatim>\<open>?y\<close> parses to a value without scheme, host and path; resolved against
  the parsed base it keeps the base's path and takes the query \<^verbatim>\<open>y\<close>.
\<close>

theorem Resolve_empty_path_witness:
  "ParseFromString emptyUri ''?y'' = Some (emptyUri\<lparr> hasQuery := True, query := ''y'' \<rparr>)
   \<and> scheme (emptyUri\<lparr> hasQuery := True, query := ''y'' \<rparr>) = []
   \<and> host (emptyUri\<lparr> hasQuery := True, query := ''y'' \<rparr>) = []
   \<and> path (emptyUri\<lparr> hasQuery := True, query := ''y'' \<rparr>) = []
   \<and> path (Resolve (emptyUri\<lparr> scheme := ''http'', host := ''a'',
                         path := ['''', ''b'', ''c'', ''d;p''], hasQuery := True,
                         query := ''q'' \<rparr>)
               (emptyUri\<lparr> hasQuery := True, query := ''y'' \<rparr>))
       = ['''', ''b'', ''c'', ''d;p'']
   \<and> query (Resolve (emptyUri\<lparr> scheme := ''http'', host := ''a'',
                          path := ['''', ''b'', ''c'', ''d;p''], hasQuery := True,
                          query := ''q'' \<rparr>)
               (emptyUri\<lparr> hasQuery := True, query := ''y'' \<rparr>)) = ''y''"
proof -
  have p: "ParseFromString emptyUri ''?y'' = Some (emptyUri\<lparr> hasQuery := True, query := ''y'' \<rparr>)"
    by code_simp
  show ?thesis
    using p Resolve_empty_path
      [of "emptyUri\<lparr> hasQuery := True, query := ''y'' \<rparr>"
          "emptyUri\<lparr> scheme := ''http'', host := ''a'', path := ['''', ''b'', ''c'', ''d;p''],
                     hasQuery := True, query := ''q'' \<rparr>"]
    by (simp add: emptyUri_def)
qed

section \<open>Evaluating the decimal rendering\<close>

lemma decimal_digit: "n < 10 \<Longrightarrow> decimal n = [char_of (n + 48)]"
  by simp

lemma decimal_more:
  "\<not> n < 10 \<Longrightarrow> decimal n = decimal (n div 10) @ [char_of (n mod 10 + 48)]"
  by (subst decimal.simps) simp

section \<open>Behaviour of the parser and the validators at particular inputs\<close>

text \<open>
  C2. The default path is set under \<^verbatim>\<open>!host.empty()\<close> alone. The string
  \<^verbatim>\<open>http://user@:8080\<close> parses to a value with user info and port, hence with an
  authority, whose path stays empty and which is rendered without \<^verbatim>\<open>/\<close>.
\<close>

theorem ParseFromString_authority_without_host_keeps_empty_path:
  "ParseFromString emptyUri ''http://user@:8080''
     = Some (emptyUri\<lparr> scheme := ''http'', userInfo := ''user'', hasPort := True,
                       port := 8080 \<rparr>)
   \<and> HasAuthority (emptyUri\<lparr> scheme := ''http'', userInfo := ''user'', hasPort := True,
                             port := 8080 \<rparr>)
   \<and> path (emptyUri\<lparr> scheme := ''http'', userInfo := ''user'', hasPort := True,
                     port := 8080 \<rparr>) = []
   \<and> GenerateString (emptyUri\<lparr> scheme := ''http'', userInfo := ''user'', hasPort := True,
                               port := 8080 \<rparr>) = ''http://user@:8080''"
proof -
  have d: "decimal (unat (8080 :: 16 word)) = ''8080''"
    by (simp add: decimal_digit decimal_more del: decimal.simps) code_simp
  have h: "hasPort (emptyUri\<lparr> scheme := ''http'', userInfo := ''user'', hasPort := True,
                             port := 8080 \<rparr>)"
    by simp
  have p: "port (emptyUri\<lparr> scheme := ''http'', userInfo := ''user'', hasPort := True,
                          port := 8080 \<rparr>) = 8080"
    by simp
  have g: "GenerateString (emptyUri\<lparr> scheme := ''http'', userInfo := ''user'', hasPort := True,
                               port := 8080 \<rparr>) = ''http://user@:8080''"
    unfolding GenerateString_def Let_def by (simp only: h p d if_True) code_simp
  have a: "ParseFromString emptyUri ''http://user@:8080''
     = Some (emptyUri\<lparr> scheme := ''http'', userInfo := ''user'', hasPort := True,
                       port := 8080 \<rparr>)"
    by code_simp
  show ?thesis using a g by (simp add: HasAuthority_def emptyUri_def)
qed

theorem ParseFromString_authority_without_host_keeps_empty_path_witness:
  "\<exists>u. ParseFromString emptyUri ''http://user@:8080'' = Some u
       \<and> HasAuthority u \<and> path u \<noteq> [''''] \<and> GenerateString u = ''http://user@:8080''"
  using ParseFromString_authority_without_host_keeps_empty_path by simp

text \<open>
  C3. The port text is read by \<^verbatim>\<open>std::stoi\<close>, which stops at the first character that
  is not a digit: the authority \<^verbatim>\<open>h:80abc\<close> parses, with port 80, and so do a port text
  with a leading blank or a plus sign. The texts \<^verbatim>\<open>65535\<close>, \<^verbatim>\<open>65536\<close>, \<^verbatim>\<open>-1\<close> and
  \<^verbatim>\<open>abc\<close> behave as the claim says.
\<close>

theorem ParseAuthority_port_with_trailing_text:
  "ParseAuthority emptyUri ''h:80abc'' = Some (emptyUri\<lparr> host := ''h'', port := 80, hasPort := True \<rparr>)
   \<and> ParseAuthority emptyUri ''h: 80'' = Some (emptyUri\<lparr> host := ''h'', port := 80, hasPort := True \<rparr>)
   \<and> ParseAuthority emptyUri ''h:+80'' = Some (emptyUri\<lparr> host := ''h'', port := 80, hasPort := True \<rparr>)
   \<and> ParseAuthority emptyUri ''h:65535''
       = Some (emptyUri\<lparr> host := ''h'', port := 65535, hasPort := True \<rparr>)
   \<and> ParseAuthority emptyUri ''h:65536'' = None
   \<and> ParseAuthority emptyUri ''h:-1'' = None
   \<and> ParseAuthority emptyUri ''h:abc'' = None"
  by code_simp

theorem ParseAuthority_port_with_trailing_text_witness:
  "\<exists>u. ParseAuthority emptyUri ''h:80abc'' = Some u \<and> hasPort u \<and> port u = 80"
  using ParseAuthority_port_with_trailing_text by simp

text \<open>
  C6. When the scan stops at the dot of an embedded IPv4 part, the state is still
  \<^verbatim>\<open>IN_GROUP_COULD_BE_IPV4\<close>, so the trailing group is counted once and the IPv4 part
  twice more: three groups in all. Six groups followed by an IPv4 part are rejected, five
  groups followed by one are accepted. The four addresses of the claim behave as it says.
\<close>

theorem ValidateIpv6Address_embedded_ipv4_counts_three:
  "ValidateIpv6Address ''1:2:3:4:5:6:1.2.3.4'' = False
   \<and> ValidateIpv6Address ''1:2:3:4:5:1.2.3.4'' = True
   \<and> ValidateIpv4Address ''1.2.3.4''
   \<and> ValidateIpv6Address ''1:2:3:4:5:6:7:8''
   \<and> \<not> ValidateIpv6Address ''1:2:3:4:5:6:7:8:9''
   \<and> ValidateIpv6Address ''::1''
   \<and> \<not> ValidateIpv6Address ''1::2::3''"
  by code_simp

theorem ValidateIpv6Address_embedded_ipv4_counts_three_witness:
  "ValidateIpv6Address ''1:2:3:4:5:1.2.3.4'' \<and> \<not> ValidateIpv6Address ''1:2:3:4:5:6:1.2.3.4''"
  using ValidateIpv6Address_embedded_ipv4_counts_three by simp

section \<open>The element codec: encoding and decoding\<close>

lemma hex_MakeHexDigit: "v < 16 \<Longrightarrow> HexDigitValue (MakeHexDigit v) = Some v"
proof (cases "v < 10")
  case True
  then have "(v + 48) mod 256 = v + 48" by simp
  with True show ?thesis by (simp add: HexDigitValue_def MakeHexDigit_def)
next
  case False
  assume "v < 16"
  with False have m: "(v - 10 + 65) mod 256 = v + 55" by simp
  from False \<open>v < 16\<close> show ?thesis
    by (simp add: HexDigitValue_def MakeHexDigit_def m)
qed

lemma MakeHexDigit_upper:
  "v < 16 \<Longrightarrow> Contains (SetUnion [CharRange CHR ''0'' CHR ''9'', CharRange CHR ''A'' CHR ''F'']) (MakeHexDigit v)"
proof (cases "v < 10")
  case True
  then have "(v + 48) mod 256 = v + 48" by simp
  with True show ?thesis by (simp add: MakeHexDigit_def)
next
  case False
  assume "v < 16"
  with False have m: "(v - 10 + 65) mod 256 = v + 55" by simp
  from False \<open>v < 16\<close> show ?thesis
    by (simp add: MakeHexDigit_def m)
qed

lemma foldl_enc: "foldl (EncodeElement_step S) acc s = acc @ concat (map (enc S) s)"
  by (induction s arbitrary: acc) (simp_all add: EncodeElement_step_def enc_def)

lemma EncodeElement_concat: "EncodeElement s S = concat (map (enc S) s)"
  by (simp add: EncodeElement_def foldl_enc)

lemma decode_enc:
  assumes "\<not> Contains S CHR ''%''"
  shows "DecodeElement_loop S (enc S c @ rest) (False, d, el)
     = (if Contains S c then DecodeElement_loop S rest (False, d, el @ [c])
        else DecodeElement_loop S rest (False, Decoded (of_char c), el @ [c]))"
proof (cases "Contains S c")
  case True
  with assms have "c \<noteq> CHR ''%''" by auto
  with True show ?thesis by (simp add: enc_def)
next
  case False
  have h: "HexDigitValue (MakeHexDigit (of_char c div 16)) = Some (of_char c div 16)"
    by (rule hex_MakeHexDigit) (simp add: less_mult_imp_div_less)
  have l: "HexDigitValue (MakeHexDigit (of_char c mod 16)) = Some (of_char c mod 16)"
    by (rule hex_MakeHexDigit) simp
  have v: "16 * (of_char c div 16) + of_char c mod 16 = (of_char c :: nat)" by simp
  from False show ?thesis by (simp add: enc_def h l v)
qed

lemma decode_encoded:
  assumes "\<not> Contains S CHR ''%''"
  shows "DecodeElement_loop S (concat (map (enc S) s)) (False, d, el) = Some (el @ s)"
proof (induction s arbitrary: d el)
  case Nil show ?case by simp
next
  case (Cons c s)
  show ?case by (simp add: decode_enc[OF assms] Cons.IH)
qed

lemma DecodeElement_EncodeElement:
  "\<not> Contains S CHR ''%'' \<Longrightarrow> DecodeElement (EncodeElement s S) S = Some s"
  by (simp add: DecodeElement_def EncodeElement_concat decode_encoded)

lemma no_percent:
  "\<not> Contains USER_INFO_NOT_PCT_ENCODED CHR ''%''"
  "\<not> Contains REG_NAME_NOT_PCT_ENCODED CHR ''%''"
  "\<not> Contains PCHAR_NOT_PCT_ENCODED CHR ''%''"
  "\<not> Contains QUERY_NOT_PCT_ENCODED_WITHOUT_PLUS CHR ''%''"
  "\<not> Contains QUERY_OR_FRAGMENT_NOT_PCT_ENCODED CHR ''%''"
  by (simp_all add: USER_INFO_NOT_PCT_ENCODED_def REG_NAME_NOT_PCT_ENCODED_def
      PCHAR_NOT_PCT_ENCODED_def QUERY_NOT_PCT_ENCODED_WITHOUT_PLUS_def
      QUERY_OR_FRAGMENT_NOT_PCT_ENCODED_def UNRESERVED_def SUB_DELIMS_def ALPHA_def DIGIT_def)

text \<open>
  C9. For every byte string and every character set without \<^verbatim>\<open>%\<close>, decoding the
  encoding with the same set succeeds and returns the string. \<^verbatim>\<open>EncodeElement\<close> has no
  failing path; it copies a byte of the set and emits, for any other byte, \<^verbatim>\<open>%\<close> and two
  digits out of \<^verbatim>\<open>0-9A-F\<close>, the first for the high nibble and the second for the low
  one. None of the five sets the library encodes or decodes with contains \<^verbatim>\<open>%\<close>.
\<close>

theorem EncodeElement_DecodeElement_roundtrip:
  "(\<not> Contains S CHR ''%'' \<longrightarrow> DecodeElement (EncodeElement s S) S = Some s)
   \<and> EncodeElement [] S = []
   \<and> EncodeElement (s @ [c]) S = EncodeElement s S @
        (if Contains S c then [c]
         else [CHR ''%'', MakeHexDigit (of_char c div 16), MakeHexDigit (of_char c mod 16)])
   \<and> Contains (SetUnion [CharRange CHR ''0'' CHR ''9'', CharRange CHR ''A'' CHR ''F''])
        (MakeHexDigit (of_char c div 16))
   \<and> Contains (SetUnion [CharRange CHR ''0'' CHR ''9'', CharRange CHR ''A'' CHR ''F''])
        (MakeHexDigit (of_char c mod 16))
   \<and> HexDigitValue (MakeHexDigit (of_char c div 16)) = Some (of_char c div 16)
   \<and> HexDigitValue (MakeHexDigit (of_char c mod 16)) = Some (of_char c mod 16)
   \<and> \<not> Contains USER_INFO_NOT_PCT_ENCODED CHR ''%''
   \<and> \<not> Contains REG_NAME_NOT_PCT_ENCODED CHR ''%''
   \<and> \<not> Contains PCHAR_NOT_PCT_ENCODED CHR ''%''
   \<and> \<not> Contains QUERY_NOT_PCT_ENCODED_WITHOUT_PLUS CHR ''%''
   \<and> \<not> Contains QUERY_OR_FRAGMENT_NOT_PCT_ENCODED CHR ''%''"
proof -
  have hi: "(of_char c :: nat) div 16 < 16" by (simp add: less_mult_imp_div_less)
  have lo: "(of_char c :: nat) mod 16 < 16" by simp
  have snoc: "EncodeElement (s @ [c]) S = EncodeElement s S @
        (if Contains S c then [c]
         else [CHR ''%'', MakeHexDigit (of_char c div 16), MakeHexDigit (of_char c mod 16)])"
    by (simp add: EncodeElement_def EncodeElement_step_def)
  have nil: "EncodeElement [] S = []" by (simp add: EncodeElement_def)
  show ?thesis
    using DecodeElement_EncodeElement [of S s] nil snoc
      MakeHexDigit_upper [OF hi] MakeHexDigit_upper [OF lo]
      hex_MakeHexDigit [OF hi] hex_MakeHexDigit [OF lo] no_percent
    by blast
qed

theorem EncodeElement_DecodeElement_roundtrip_witness:
  "\<not> Contains QUERY_NOT_PCT_ENCODED_WITHOUT_PLUS CHR ''%''
   \<and> EncodeElement ''a b+%'' QUERY_NOT_PCT_ENCODED_WITHOUT_PLUS = ''a%20b%2B%25''
   \<and> DecodeElement ''a%20b%2B%25'' QUERY_NOT_PCT_ENCODED_WITHOUT_PLUS = Some ''a b+%''"
proof -
  have e: "EncodeElement ''a b+%'' QUERY_NOT_PCT_ENCODED_WITHOUT_PLUS = ''a%20b%2B%25''"
    by code_simp
  show ?thesis
    using EncodeElement_DecodeElement_roundtrip
      [of QUERY_NOT_PCT_ENCODED_WITHOUT_PLUS "''a b+%''" "CHR ''+''"]
    by (simp only: e) simp
qed

section \<open>Round trip through the serializer\<close>

subsection \<open>find and substr\<close>

lemma find_first_of_none: "set s \<inter> set cs = {} \<Longrightarrow> find_first_of s cs = None"
  by (auto simp: find_first_of_def)

lemma find_first_of_hit:
  "set pre \<inter> set cs = {} \<Longrightarrow> c \<in> set cs \<Longrightarrow> find_first_of (pre @ c # post) cs = Some (length pre)"
proof -
  assume a: "set pre \<inter> set cs = {}" and c: "c \<in> set cs"
  then have "takeWhile (\<lambda>c. c \<notin> set cs) (pre @ c # post) = pre"
    by (subst takeWhile_append2) auto
  with c show ?thesis by (auto simp: find_first_of_def)
qed

lemma find_char_none: "c \<notin> set s \<Longrightarrow> find_char s c = None"
  by (simp add: find_char_def find_first_of_none)

lemma find_char_hit: "c \<notin> set pre \<Longrightarrow> find_char (pre @ c # post) c = Some (length pre)"
  by (simp add: find_char_def find_first_of_hit)

lemma substr_append [simp]: "substr (pre @ post) (length pre) = post"
  by (simp add: substr_def)

lemma substr_append_Suc [simp]: "substr (pre @ c # post) (Suc (length pre)) = post"
  by (simp add: substr_def)

lemma substr_n_append [simp]: "substr_n (pre @ post) 0 (length pre) = pre"
  by (simp add: substr_n_def)

subsection \<open>Characters of an encoded element\<close>

lemma enc_chars:
  "c \<in> set (enc S x) \<Longrightarrow>
     Contains S c \<or> c = CHR ''%''
     \<or> Contains (SetUnion [CharRange CHR ''0'' CHR ''9'', CharRange CHR ''A'' CHR ''F'']) c"
proof -
  have hi: "(of_char x :: nat) div 16 < 16" by (simp add: less_mult_imp_div_less)
  have lo: "(of_char x :: nat) mod 16 < 16" by simp
  assume "c \<in> set (enc S x)"
  then show ?thesis
    using MakeHexDigit_upper [OF hi] MakeHexDigit_upper [OF lo]
    by (auto simp: enc_def split: if_splits)
qed

lemma EncodeElement_chars:
  "c \<in> set (EncodeElement s S) \<Longrightarrow>
     Contains S c \<or> c = CHR ''%''
     \<or> Contains (SetUnion [CharRange CHR ''0'' CHR ''9'', CharRange CHR ''A'' CHR ''F'']) c"
  by (auto simp: EncodeElement_concat dest: enc_chars)

lemmas charset_defs = USER_INFO_NOT_PCT_ENCODED_def REG_NAME_NOT_PCT_ENCODED_def
      PCHAR_NOT_PCT_ENCODED_def QUERY_NOT_PCT_ENCODED_WITHOUT_PLUS_def
      QUERY_OR_FRAGMENT_NOT_PCT_ENCODED_def UNRESERVED_def SUB_DELIMS_def ALPHA_def DIGIT_def
      HEXDIG_def SCHEME_NOT_FIRST_def IPV_FUTURE_LAST_PART_def

lemma not_in_EncodeElement:
  "\<not> Contains S c \<Longrightarrow> c \<noteq> CHR ''%'' \<Longrightarrow>
   \<not> Contains (SetUnion [CharRange CHR ''0'' CHR ''9'', CharRange CHR ''A'' CHR ''F'']) c \<Longrightarrow>
   c \<notin> set (EncodeElement s S)"
  using EncodeElement_chars by blast

lemma pchar_no_delims:
  "CHR ''/'' \<notin> set (EncodeElement s PCHAR_NOT_PCT_ENCODED)"
  "CHR ''?'' \<notin> set (EncodeElement s PCHAR_NOT_PCT_ENCODED)"
  "CHR ''#'' \<notin> set (EncodeElement s PCHAR_NOT_PCT_ENCODED)"
  by (rule not_in_EncodeElement; simp add: charset_defs)+

lemma userinfo_no_delims:
  "CHR ''/'' \<notin> set (EncodeElement s USER_INFO_NOT_PCT_ENCODED)"
  "CHR ''?'' \<notin> set (EncodeElement s USER_INFO_NOT_PCT_ENCODED)"
  "CHR ''#'' \<notin> set (EncodeElement s USER_INFO_NOT_PCT_ENCODED)"
  "CHR ''@'' \<notin> set (EncodeElement s USER_INFO_NOT_PCT_ENCODED)"
  by (rule not_in_EncodeElement; simp add: charset_defs)+

lemma regname_no_delims:
  "CHR ''/'' \<notin> set (EncodeElement s REG_NAME_NOT_PCT_ENCODED)"
  "CHR ''?'' \<notin> set (EncodeElement s REG_NAME_NOT_PCT_ENCODED)"
  "CHR ''#'' \<notin> set (EncodeElement s REG_NAME_NOT_PCT_ENCODED)"
  "CHR ''@'' \<notin> set (EncodeElement s REG_NAME_NOT_PCT_ENCODED)"
  "CHR '':'' \<notin> set (EncodeElement s REG_NAME_NOT_PCT_ENCODED)"
  "CHR ''['' \<notin> set (EncodeElement s REG_NAME_NOT_PCT_ENCODED)"
  by (rule not_in_EncodeElement; simp add: charset_defs)+

lemma query_no_hash:
  "CHR ''#'' \<notin> set (EncodeElement s QUERY_NOT_PCT_ENCODED_WITHOUT_PLUS)"
  by (rule not_in_EncodeElement; simp add: charset_defs)+

subsection \<open>Decoding with a larger set\<close>

lemma decode_enc_sub:
  assumes "\<not> Contains T CHR ''%''" and "\<And>c. Contains S c \<Longrightarrow> Contains T c"
  shows "\<exists>d'. DecodeElement_loop T (enc S c @ rest) (False, d, el)
     = DecodeElement_loop T rest (False, d', el @ [c])"
proof (cases "Contains S c")
  case True
  with assms have "c \<noteq> CHR ''%''" "Contains T c" by auto
  with True show ?thesis by (auto simp add: enc_def)
next
  case False
  have h: "HexDigitValue (MakeHexDigit (of_char c div 16)) = Some (of_char c div 16)"
    by (rule hex_MakeHexDigit) (simp add: less_mult_imp_div_less)
  have l: "HexDigitValue (MakeHexDigit (of_char c mod 16)) = Some (of_char c mod 16)"
    by (rule hex_MakeHexDigit) simp
  have v: "16 * (of_char c div 16) + of_char c mod 16 = (of_char c :: nat)" by simp
  from False show ?thesis by (auto simp add: enc_def h l v)
qed

lemma decode_encoded_sub:
  assumes "\<not> Contains T CHR ''%''" and "\<And>c. Contains S c \<Longrightarrow> Contains T c"
  shows "DecodeElement_loop T (concat (map (enc S) s)) (False, d, el) = Some (el @ s)"
proof (induction s arbitrary: d el)
  case Nil show ?case by simp
next
  case (Cons c s)
  obtain d' where "DecodeElement_loop T (enc S c @ concat (map (enc S) s)) (False, d, el)
     = DecodeElement_loop T (concat (map (enc S) s)) (False, d', el @ [c])"
    using decode_enc_sub[OF assms] by blast
  then show ?case by (simp add: Cons.IH)
qed

lemma DecodeElement_EncodeElement_sub:
  assumes "\<not> Contains T CHR ''%''" and "\<And>c. Contains S c \<Longrightarrow> Contains T c"
  shows "DecodeElement (EncodeElement s S) T = Some s"
  by (simp add: DecodeElement_def EncodeElement_concat decode_encoded_sub[OF assms])

lemma query_subset:
  "Contains QUERY_NOT_PCT_ENCODED_WITHOUT_PLUS c \<Longrightarrow> Contains QUERY_OR_FRAGMENT_NOT_PCT_ENCODED c"
  by (auto simp: charset_defs)

lemma decode_query:
  "DecodeQueryOrFragment (EncodeElement s QUERY_NOT_PCT_ENCODED_WITHOUT_PLUS) = Some s"
  unfolding DecodeQueryOrFragment_def
  by (rule DecodeElement_EncodeElement_sub) (simp_all add: no_percent query_subset)

lemma decode_fragment:
  "DecodeQueryOrFragment (EncodeElement s QUERY_OR_FRAGMENT_NOT_PCT_ENCODED) = Some s"
  unfolding DecodeQueryOrFragment_def
  by (rule DecodeElement_EncodeElement) (simp add: no_percent)

subsection \<open>The path: joining and splitting\<close>

declare ParsePath_split.simps [simp del]

lemma EncodeElement_Nil [simp]: "EncodeElement [] S = []"
  by (simp add: EncodeElement_def)

lemma enc_not_Nil: "enc S c \<noteq> []"
  by (simp add: enc_def)

lemma EncodeElement_eq_Nil [simp]: "EncodeElement s S = [] \<longleftrightarrow> s = []"
  by (cases s) (simp_all add: EncodeElement_concat enc_not_Nil)

lemma split_join:
  "\<forall>s \<in> set segs. CHR ''/'' \<notin> set s \<Longrightarrow> segs \<noteq> [] \<Longrightarrow>
   ParsePath_split (join_path segs) acc = acc @ segs"
proof (induction segs arbitrary: acc rule: join_path.induct)
  case 1
  then show ?case by simp
next
  case (2 s)
  then show ?case
    by (subst ParsePath_split.simps) (simp add: find_char_none)
next
  case (3 s t rest)
  have f: "find_char (s @ CHR ''/'' # join_path (t # rest)) CHR ''/'' = Some (length s)"
    using 3(2) by (intro find_char_hit) simp
  have "ParsePath_split (join_path (s # t # rest)) acc
      = ParsePath_split (join_path (t # rest)) (acc @ [s])"
    by (subst ParsePath_split.simps) (simp add: f)
  also have "\<dots> = (acc @ [s]) @ t # rest"
    using 3(2) by (intro "3.IH") simp_all
  finally show ?case by simp
qed

lemma generate_path_fold:
  "i + length segs = n \<Longrightarrow>
   fst (foldl (GenerateString_segment n) (buf, i) segs)
     = buf @ join_path (map (\<lambda>segment. EncodeElement segment PCHAR_NOT_PCT_ENCODED) segs)"
proof (induction segs arbitrary: buf i rule: join_path.induct)
  case 1
  then show ?case by simp
next
  case (2 s)
  then show ?case by (simp add: GenerateString_segment_def)
next
  case (3 s t rest)
  have "fst (foldl (GenerateString_segment n) (buf, i) (s # t # rest))
      = fst (foldl (GenerateString_segment n)
               (buf @ EncodeElement s PCHAR_NOT_PCT_ENCODED @ ''/'', i + 1) (t # rest))"
    using 3(2) by (simp add: GenerateString_segment_def)
  also have "\<dots> = (buf @ EncodeElement s PCHAR_NOT_PCT_ENCODED @ ''/'')
      @ join_path (map (\<lambda>segment. EncodeElement segment PCHAR_NOT_PCT_ENCODED) (t # rest))"
    using 3(2) by (intro "3.IH") simp
  finally show ?case by simp
qed

lemma decode_segments:
  "ParsePath_decode (map (\<lambda>segment. EncodeElement segment PCHAR_NOT_PCT_ENCODED) segs) = Some segs"
  by (induction segs) (simp_all add: DecodeElement_EncodeElement no_percent)

lemma join_not_slash:
  assumes "segs \<noteq> []" "segs \<noteq> ['''']" "segs \<noteq> ['''', '''']"
  shows "join_path (map (\<lambda>segment. EncodeElement segment PCHAR_NOT_PCT_ENCODED) segs) \<noteq> ''/''
    \<and> join_path (map (\<lambda>segment. EncodeElement segment PCHAR_NOT_PCT_ENCODED) segs) \<noteq> []"
proof (cases segs)
  case Nil
  with assms show ?thesis by simp
next
  case (Cons s rest)
  show ?thesis
  proof (cases rest)
    case Nil
    have "CHR ''/'' \<notin> set (EncodeElement s PCHAR_NOT_PCT_ENCODED)" by (rule pchar_no_delims)
    then have "EncodeElement s PCHAR_NOT_PCT_ENCODED \<noteq> ''/''" by auto
    with Cons Nil assms show ?thesis by simp
  next
    case (Cons t rest')
    show ?thesis
    proof (cases rest')
      case Nil
      with assms \<open>segs = s # rest\<close> \<open>rest = t # rest'\<close> show ?thesis
        by (auto simp: append_eq_Cons_conv)
    next
      case (Cons r rest'')
      with \<open>segs = s # rest\<close> \<open>rest = t # rest'\<close> show ?thesis
        by (auto simp: append_eq_Cons_conv)
    qed
  qed
qed

lemma ParsePath_pathPart:
  assumes "path u \<noteq> ['''', '''']"
  shows "ParsePath v (pathPart u) = Some (v\<lparr>path := path u\<rparr>)"
proof -
  consider (empty) "path u = []" | (root) "path u = ['''']"
    | (other) "path u \<noteq> []" "path u \<noteq> ['''']" by blast
  then show ?thesis
  proof cases
    case empty
    then show ?thesis by (simp add: ParsePath_def pathPart_def)
  next
    case root
    then show ?thesis
      by (simp add: ParsePath_def pathPart_def DecodeElement_def)
  next
    case other
    let ?segs = "map (\<lambda>segment. EncodeElement segment PCHAR_NOT_PCT_ENCODED) (path u)"
    have j: "join_path ?segs \<noteq> ''/''" "join_path ?segs \<noteq> []"
      using join_not_slash[OF other assms] by simp_all
    have "ParsePath_split (join_path ?segs) [] = [] @ ?segs"
      by (rule split_join) (use other in \<open>auto simp: pchar_no_delims\<close>)
    with j other show ?thesis
      by (simp add: ParsePath_def pathPart_def decode_segments)
  qed
qed

subsection \<open>The port: decimal digits and stoi\<close>

declare decimal.simps [simp del]

lemma digit_char: "d < 10 \<Longrightarrow> Contains DIGIT (char_of (d + (48::nat)))"
  by (simp add: DIGIT_def)

lemma digit_char_value: "d < 10 \<Longrightarrow> int (of_char (char_of (d + (48::nat)))) - 48 = int d"
  by simp

lemma decimal_digits: "c \<in> set (decimal n) \<Longrightarrow> Contains DIGIT c"
proof (induction n arbitrary: c rule: decimal.induct)
  case (1 n)
  show ?case
  proof (cases "n < 10")
    case True
    with 1(2) show ?thesis by (simp add: decimal_digit digit_char)
  next
    case False
    have "n mod 10 < 10" by simp
    then have "Contains DIGIT (char_of (n mod 10 + (48::nat)))" by (rule digit_char)
    with False 1 show ?thesis by (auto simp: decimal_more)
  qed
qed

lemma decimal_not_Nil: "decimal n \<noteq> []"
  by (subst decimal.simps) simp

lemma digits_value_snoc:
  "digits_value (ds @ [c]) = digits_value ds * 10 + (int (of_char c) - int (of_char CHR ''0''))"
  by (simp add: digits_value_def)

lemma digits_value_decimal: "digits_value (decimal n) = int n"
proof (induction n rule: decimal.induct)
  case (1 n)
  show ?case
  proof (cases "n < 10")
    case True
    then show ?thesis by (simp add: decimal_digit digits_value_def)
  next
    case False
    have m: "n mod 10 < 10" by simp
    have "digits_value (decimal n) = digits_value (decimal (n div 10)) * 10
        + (int (of_char (char_of (n mod 10 + (48::nat)))) - 48)"
      using False by (simp add: decimal_more digits_value_snoc)
    also have "\<dots> = int (n div 10) * 10 + int (n mod 10)"
      using 1[OF False] digit_char_value[OF m] by simp
    also have "\<dots> = int n" by (simp add: zdiv_int zmod_int)
    finally show ?thesis .
  qed
qed

lemma stoi_decimal: "n < 2 ^ 31 \<Longrightarrow> stoi (decimal n) = Some (int n)"
proof -
  assume n: "n < 2 ^ 31"
  obtain c cs where d: "decimal n = c # cs" using decimal_not_Nil by (cases "decimal n") auto
  have all: "\<forall>x \<in> set (decimal n). Contains DIGIT x" using decimal_digits by blast
  then have c: "Contains DIGIT c" using d by simp
  then have ns: "\<not> isspace c" "c \<noteq> CHR ''-''" "c \<noteq> CHR ''+''"
    by (auto simp: isspace_def DIGIT_def)
  have dw: "dropWhile isspace (decimal n) = decimal n" using d ns by simp
  have tw: "takeWhile (Contains DIGIT) (decimal n) = decimal n"
    using all by (simp add: takeWhile_eq_all_conv)
  from n have "int n \<le> 2 ^ 31 - 1" by simp
  then show ?thesis
    unfolding stoi_def dw Let_def
    using d ns tw digits_value_decimal[of n] decimal_not_Nil[of n]
    by simp
qed

subsection \<open>Characters of a valid IPv6 address\<close>

lemma ipv4_loop_chars:
  "ValidateIpv4Address_loop (g, st, buf) cs = Some r \<Longrightarrow> st \<le> 1 \<Longrightarrow>
   \<forall>c \<in> set cs. Contains DIGIT c \<or> c = CHR ''.''"
proof (induction cs arbitrary: g st buf)
  case Nil
  then show ?case by simp
next
  case (Cons c cs)
  from Cons.prems(2) consider "st = 0" | "st = 1" by linarith
  then show ?case
  proof cases
    case 1
    with Cons.prems(1) have d: "Contains DIGIT c"
      and l: "ValidateIpv4Address_loop (g, 1, buf @ [c]) cs = Some r"
      by (simp_all split: if_splits)
    from Cons.IH[OF l] d show ?thesis by simp
  next
    case 2
    show ?thesis
    proof (cases "c = CHR ''.''")
      case True
      with 2 Cons.prems(1) have "ValidateIpv4Address_loop (g + 1, 0, []) cs = Some r"
        by (simp split: if_splits)
      from Cons.IH[OF this] True show ?thesis by simp
    next
      case False
      with 2 Cons.prems(1) have d: "Contains DIGIT c"
        and l: "ValidateIpv4Address_loop (g, 1, buf @ [c]) cs = Some r"
        by (simp_all split: if_splits)
      from Cons.IH[OF l] d show ?thesis by simp
    qed
  qed
qed

lemma ValidateIpv4Address_chars:
  "ValidateIpv4Address a \<Longrightarrow> \<forall>c \<in> set a. Contains DIGIT c \<or> c = CHR ''.''"
  unfolding ValidateIpv4Address_def
  by (cases "ValidateIpv4Address_loop (0, 0, []) a") (auto dest: ipv4_loop_chars)

lemma ipv6_step_props:
  assumes "ValidateIpv6Address_step s c = Some s'" and "\<not> ipv4AddressEncountered s"
  shows "position s' = position s"
    and "potentialIpv4AddressStart s' = potentialIpv4AddressStart s
         \<or> potentialIpv4AddressStart s' = position s"
    and "ipv4AddressEncountered s' \<Longrightarrow> c = CHR ''.''"
    and "\<not> ipv4AddressEncountered s' \<Longrightarrow> Contains HEXDIG c \<or> c = CHR '':''"
  using assms
  by (auto simp: ValidateIpv6Address_step_def HEXDIG_def DIGIT_def
      split: ValidationState.splits if_splits)

lemma ipv6_loop_props:
  "ValidateIpv6Address_loop s cs = Some s' \<Longrightarrow> \<not> ipv4AddressEncountered s \<Longrightarrow>
   potentialIpv4AddressStart s \<le> position s \<Longrightarrow>
   potentialIpv4AddressStart s' \<le> position s'
   \<and> position s \<le> position s'
   \<and> (\<forall>c \<in> set (take (position s' - position s) cs). Contains HEXDIG c \<or> c = CHR '':'')
   \<and> (\<not> ipv4AddressEncountered s' \<longrightarrow> position s' = position s + length cs)"
proof (induction cs arbitrary: s)
  case Nil
  then show ?case by simp
next
  case (Cons c cs)
  from Cons.prems(1) obtain s1 where st: "ValidateIpv6Address_step s c = Some s1"
    by (cases "ValidateIpv6Address_step s c") simp_all
  note p = ipv6_step_props[OF st Cons.prems(2)]
  show ?case
  proof (cases "ipv4AddressEncountered s1")
    case True
    with Cons.prems(1) st have "s' = s1" by simp
    with True p Cons.prems(3) show ?thesis by auto
  next
    case False
    let ?s2 = "s1\<lparr> position := position s1 + 1 \<rparr>"
    from Cons.prems(1) st False have l: "ValidateIpv6Address_loop ?s2 cs = Some s'" by simp
    have a: "\<not> ipv4AddressEncountered ?s2" using False by simp
    have b: "potentialIpv4AddressStart ?s2 \<le> position ?s2"
      using p(1,2) Cons.prems(3) by auto
    from Cons.IH[OF l a b] have ih:
      "potentialIpv4AddressStart s' \<le> position s'"
      "position s + 1 \<le> position s'"
      "\<forall>c \<in> set (take (position s' - (position s + 1)) cs). Contains HEXDIG c \<or> c = CHR '':''"
      "\<not> ipv4AddressEncountered s' \<longrightarrow> position s' = position s + 1 + length cs"
      using p(1) by simp_all
    define k where "k = position s' - (position s + 1)"
    have k: "position s' - position s = Suc k" using ih(2) by (simp add: k_def)
    have c: "Contains HEXDIG c \<or> c = CHR '':''" using p(4) False by simp
    have t: "\<forall>x \<in> set (take (position s' - position s) (c # cs)).
               Contains HEXDIG x \<or> x = CHR '':''"
      unfolding k using c ih(3) by (simp add: k_def)
    have e: "\<not> ipv4AddressEncountered s' \<longrightarrow> position s' = position s + length (c # cs)"
      using ih(4) by simp
    from ih(1) ih(2) t e show ?thesis by simp
  qed
qed

lemma ValidateIpv6Address_chars:
  assumes "ValidateIpv6Address a"
  shows "\<forall>c \<in> set a. Contains HEXDIG c \<or> c = CHR '':'' \<or> c = CHR ''.''"
proof -
  let ?s0 = "\<lparr> state = NO_GROUPS_YET, numGroups = 0, numDigits = 0,
               doubleColonEncountered = False, potentialIpv4AddressStart = 0, position = 0,
               ipv4AddressEncountered = False \<rparr>"
  from assms obtain s where l: "ValidateIpv6Address_loop ?s0 a = Some s"
    unfolding ValidateIpv6Address_def by (cases "ValidateIpv6Address_loop ?s0 a") simp_all
  from ipv6_loop_props[OF l] have p:
    "potentialIpv4AddressStart s \<le> position s"
    "\<forall>c \<in> set (take (position s) a). Contains HEXDIG c \<or> c = CHR '':''"
    "\<not> ipv4AddressEncountered s \<longrightarrow> position s = length a"
    by simp_all
  show ?thesis
  proof (cases "ipv4AddressEncountered s")
    case False
    with p show ?thesis by auto
  next
    case True
    with assms l have v4: "ValidateIpv4Address (drop (potentialIpv4AddressStart s) a)"
      unfolding ValidateIpv6Address_def by (auto simp: Let_def split: if_splits)
    have d: "\<forall>c \<in> set (drop (potentialIpv4AddressStart s) a). Contains HEXDIG c \<or> c = CHR ''.''"
      using ValidateIpv4Address_chars[OF v4] by (auto simp: HEXDIG_def DIGIT_def)
    have t: "\<forall>c \<in> set (take (potentialIpv4AddressStart s) a). Contains HEXDIG c \<or> c = CHR '':''"
      using p(1,2) by (meson set_take_subset_set_take subsetD)
    have "set a = set (take (potentialIpv4AddressStart s) a) \<union> set (drop (potentialIpv4AddressStart s) a)"
      by (metis append_take_drop_id set_append)
    with d t show ?thesis by auto
  qed
qed

subsection \<open>The scheme\<close>

lemma tolower_idem [simp]: "tolower (tolower c) = tolower c"
  by (simp add: tolower_def)

lemma tolower_ALPHA: "Contains ALPHA c \<Longrightarrow> Contains ALPHA (tolower c)"
  by (auto simp: tolower_def ALPHA_def)

lemma tolower_SCHEME_NOT_FIRST:
  "Contains SCHEME_NOT_FIRST c \<Longrightarrow> Contains SCHEME_NOT_FIRST (tolower c)"
  by (auto simp: tolower_def SCHEME_NOT_FIRST_def ALPHA_def DIGIT_def)

lemma FailsMatch_rest:
  "FailsMatch_loop LegalSchemeCheckStrategy False cs
     \<longleftrightarrow> \<not> list_all (Contains SCHEME_NOT_FIRST) cs"
  by (induction cs) (simp_all add: LegalSchemeCheckStrategy_def)

lemma FailsMatch_legal_scheme:
  "FailsMatch sch (LegalSchemeCheckStrategy, True) \<longleftrightarrow> \<not> legal_scheme sch"
  by (cases sch)
     (simp_all add: FailsMatch_def legal_scheme_def FailsMatch_rest LegalSchemeCheckStrategy_def)

lemma legal_scheme_tolower: "legal_scheme sch \<Longrightarrow> legal_scheme (map tolower sch)"
  by (cases sch)
     (auto simp: legal_scheme_def list_all_iff tolower_ALPHA tolower_SCHEME_NOT_FIRST)

lemma legal_scheme_chars:
  assumes "legal_scheme sch"
  shows "CHR '':'' \<notin> set sch" and "CHR ''/'' \<notin> set sch" and "sch \<noteq> []"
proof -
  have a: "\<not> Contains ALPHA CHR '':''" "\<not> Contains ALPHA CHR ''/''"
    "\<not> Contains SCHEME_NOT_FIRST CHR '':''" "\<not> Contains SCHEME_NOT_FIRST CHR ''/''"
    by (simp_all add: charset_defs)
  from assms a show "CHR '':'' \<notin> set sch" "CHR ''/'' \<notin> set sch" "sch \<noteq> []"
    by (cases sch; auto simp: legal_scheme_def list_all_iff)+
qed

lemma scheme_window:
  "substr_n R 0 (case find_char R CHR ''/'' of None \<Rightarrow> length R | Some n \<Rightarrow> n)
     = takeWhile (\<lambda>c. c \<noteq> CHR ''/'') R"
proof (cases "CHR ''/'' \<in> set R")
  case True
  then show ?thesis
    by (simp add: find_char_def find_first_of_def substr_n_def takeWhile_eq_take [symmetric])
next
  case False
  then have t: "takeWhile (\<lambda>c. c \<noteq> CHR ''/'') R = R" by (auto simp: takeWhile_eq_all_conv)
  show ?thesis unfolding t by (simp add: find_char_none[OF False] substr_n_def)
qed

lemma ParseScheme_none:
  "CHR '':'' \<notin> set (takeWhile (\<lambda>c. c \<noteq> CHR ''/'') R) \<Longrightarrow>
   ParseScheme v R = Some (v\<lparr>scheme := []\<rparr>, R)"
  unfolding ParseScheme_def Let_def scheme_window by (simp add: find_char_none)

lemma ParseScheme_some:
  assumes "legal_scheme sch" and "map tolower sch = sch"
  shows "ParseScheme v (sch @ CHR '':'' # R) = Some (v\<lparr>scheme := sch\<rparr>, R)"
proof -
  note c = legal_scheme_chars[OF assms(1)]
  have w: "takeWhile (\<lambda>c. c \<noteq> CHR ''/'') (sch @ CHR '':'' # R)
      = sch @ CHR '':'' # takeWhile (\<lambda>c. c \<noteq> CHR ''/'') R"
    using c(2) by (subst takeWhile_append2) auto
  have f: "find_char (sch @ CHR '':'' # takeWhile (\<lambda>c. c \<noteq> CHR ''/'') R) CHR '':''
      = Some (length sch)"
    using c(1) by (rule find_char_hit)
  show ?thesis
    unfolding ParseScheme_def Let_def scheme_window w f
    using assms by (simp add: FailsMatch_legal_scheme)
qed

lemma ParseScheme_result:
  assumes "ParseScheme v s = Some (v', rest)"
  shows "scheme v' = [] \<or> (legal_scheme (scheme v') \<and> map tolower (scheme v') = scheme v')"
  using assms
  unfolding ParseScheme_def Let_def
  by (auto simp: FailsMatch_legal_scheme legal_scheme_tolower split: option.splits if_splits)

subsection \<open>The authority\<close>

lemma regname_char:
  assumes "hostParsingState s = NOT_IP_LITERAL"
  shows "\<exists>d. ParseAuthority_loop s (enc REG_NAME_NOT_PCT_ENCODED c @ rest)
     = ParseAuthority_loop (s\<lparr>scanHost := scanHost s @ [c], pecDecoder := d\<rparr>) rest"
proof (cases "Contains REG_NAME_NOT_PCT_ENCODED c")
  case True
  then have n: "c \<noteq> CHR ''%''" "c \<noteq> CHR '':''"
    by (auto simp: charset_defs)
  have "ParseAuthority_loop s (enc REG_NAME_NOT_PCT_ENCODED c @ rest)
     = ParseAuthority_loop (s\<lparr>scanHost := scanHost s @ [c], pecDecoder := pecDecoder s\<rparr>) rest"
    using True n assms
    by (simp add: enc_def ParseAuthority_step_def ParseAuthority_NOT_IP_LITERAL_def)
  then show ?thesis by blast
next
  case False
  have h: "HexDigitValue (MakeHexDigit (of_char c div 16)) = Some (of_char c div 16)"
    by (rule hex_MakeHexDigit) (simp add: less_mult_imp_div_less)
  have l: "HexDigitValue (MakeHexDigit (of_char c mod 16)) = Some (of_char c mod 16)"
    by (rule hex_MakeHexDigit) simp
  have v: "16 * (of_char c div 16) + of_char c mod 16 = (of_char c :: nat)" by simp
  obtain a b d r p where s: "s = \<lparr>hostParsingState = a, scanHost = b, pecDecoder = d,
      hostIsRegName = r, portString = p\<rparr>"
    by (cases s) auto
  have "ParseAuthority_loop s (enc REG_NAME_NOT_PCT_ENCODED c @ rest)
     = ParseAuthority_loop (s\<lparr>scanHost := scanHost s @ [c],
          pecDecoder := Decoded (of_char c)\<rparr>) rest"
    using False assms unfolding s
    by (simp add: enc_def ParseAuthority_step_def ParseAuthority_NOT_IP_LITERAL_def h l v)
  then show ?thesis by blast
qed

lemma regname_string:
  "hostParsingState s = NOT_IP_LITERAL \<Longrightarrow>
   \<exists>d. ParseAuthority_loop s (concat (map (enc REG_NAME_NOT_PCT_ENCODED) h) @ rest)
     = ParseAuthority_loop (s\<lparr>scanHost := scanHost s @ h, pecDecoder := d\<rparr>) rest"
proof (induction h arbitrary: s)
  case Nil
  have "s = s\<lparr>scanHost := scanHost s @ [], pecDecoder := pecDecoder s\<rparr>" by simp
  then show ?case by (metis append_Nil concat.simps(1) list.simps(8))
next
  case (Cons c h)
  obtain d where d: "ParseAuthority_loop s
        (enc REG_NAME_NOT_PCT_ENCODED c @ concat (map (enc REG_NAME_NOT_PCT_ENCODED) h) @ rest)
     = ParseAuthority_loop (s\<lparr>scanHost := scanHost s @ [c], pecDecoder := d\<rparr>)
        (concat (map (enc REG_NAME_NOT_PCT_ENCODED) h) @ rest)"
    using regname_char[OF Cons.prems] by blast
  let ?s1 = "s\<lparr>scanHost := scanHost s @ [c], pecDecoder := d\<rparr>"
  have "hostParsingState ?s1 = NOT_IP_LITERAL" using Cons.prems by simp
  from Cons.IH[OF this] obtain d' where
    "ParseAuthority_loop ?s1 (concat (map (enc REG_NAME_NOT_PCT_ENCODED) h) @ rest)
     = ParseAuthority_loop (?s1\<lparr>scanHost := scanHost ?s1 @ h, pecDecoder := d'\<rparr>) rest"
    by blast
  with d have "ParseAuthority_loop s (concat (map (enc REG_NAME_NOT_PCT_ENCODED) (c # h)) @ rest)
     = ParseAuthority_loop (s\<lparr>scanHost := scanHost s @ c # h, pecDecoder := d'\<rparr>) rest"
    by simp
  then show ?case by blast
qed

lemma port_string:
  "hostParsingState s = PORT \<Longrightarrow>
   ParseAuthority_loop s ds = Some (s\<lparr>portString := portString s @ ds\<rparr>)"
proof (induction ds arbitrary: s)
  case Nil
  then show ?case by simp
next
  case (Cons c ds)
  have "ParseAuthority_loop (s\<lparr>portString := portString s @ [c]\<rparr>) ds
    = Some (s\<lparr>portString := portString s @ [c]\<rparr>
              \<lparr>portString := portString (s\<lparr>portString := portString s @ [c]\<rparr>) @ ds\<rparr>)"
    by (rule Cons.IH) (use Cons.prems in simp)
  with Cons.prems show ?case by (simp add: ParseAuthority_step_def)
qed

lemma ipv6_string:
  "hostParsingState s = IPV6_ADDRESS \<Longrightarrow> CHR '']'' \<notin> set h \<Longrightarrow>
   ParseAuthority_loop s (h @ rest) = ParseAuthority_loop (s\<lparr>scanHost := scanHost s @ h\<rparr>) rest"
proof (induction h arbitrary: s)
  case Nil
  then show ?case by simp
next
  case (Cons c h)
  have "ParseAuthority_loop (s\<lparr>scanHost := scanHost s @ [c]\<rparr>) (h @ rest)
    = ParseAuthority_loop (s\<lparr>scanHost := scanHost s @ [c]\<rparr>
        \<lparr>scanHost := scanHost (s\<lparr>scanHost := scanHost s @ [c]\<rparr>) @ h\<rparr>) rest"
    by (rule Cons.IH) (use Cons.prems in simp_all)
  with Cons.prems show ?case
    by (auto simp add: ParseAuthority_step_def ParseAuthority_IPV6_ADDRESS_def)
qed

lemma port_tail:
  assumes "hostParsingState s = NOT_IP_LITERAL \<or> hostParsingState s = GARBAGE_CHECK"
    and "portString s = []"
  shows "ParseAuthority_loop s (portPart u)
    = Some (if hasPort u
            then s\<lparr>hostParsingState := PORT, portString := decimal (unat (port u))\<rparr> else s)"
proof (cases "hasPort u")
  case False
  then show ?thesis by (simp add: portPart_def)
next
  case True
  have st: "ParseAuthority_step s CHR '':'' = Some (s\<lparr>hostParsingState := PORT\<rparr>)"
    using assms(1)
    by (auto simp: ParseAuthority_step_def ParseAuthority_NOT_IP_LITERAL_def)
  have "ParseAuthority_loop (s\<lparr>hostParsingState := PORT\<rparr>) (decimal (unat (port u)))
    = Some (s\<lparr>hostParsingState := PORT\<rparr>
        \<lparr>portString := portString (s\<lparr>hostParsingState := PORT\<rparr>) @ decimal (unat (port u))\<rparr>)"
    by (rule port_string) simp
  with True st assms(2) show ?thesis by (simp add: portPart_def)
qed

lemma port_value: "stoi (decimal (unat (p :: 16 word))) = Some (uint p)"
proof -
  have "unat p < 2 ^ 16" using unsigned_less[of p] by simp
  then have "unat p < 2 ^ 31" by simp
  then have "stoi (decimal (unat p)) = Some (int (unat p))" by (rule stoi_decimal)
  then show ?thesis by simp
qed

lemma port_range: "\<not> (uint (p :: 16 word) < 0 \<or> uint p > 65535)"
proof -
  have "uint p < 2 ^ 16" using uint_bounded[of p] by simp
  then show ?thesis by simp
qed

lemma decimal_chars: "\<not> Contains DIGIT c \<Longrightarrow> c \<notin> set (decimal n)"
  using decimal_digits by blast

lemma portPart_no: "\<not> Contains DIGIT c \<Longrightarrow> c \<noteq> CHR '':'' \<Longrightarrow> c \<notin> set (portPart u)"
  by (simp add: portPart_def decimal_chars)

lemma ipv6_host_chars:
  assumes "ValidateIpv6Address h"
  shows "CHR '']'' \<notin> set h" "CHR ''/'' \<notin> set h" "CHR ''?'' \<notin> set h" "CHR ''#'' \<notin> set h"
    "CHR ''@'' \<notin> set h" "CHR ''v'' \<notin> set h"
  using ValidateIpv6Address_chars[OF assms] by (auto simp: HEXDIG_def)

lemma portPart_chars:
  "CHR ''/'' \<notin> set (portPart u)" "CHR ''?'' \<notin> set (portPart u)" "CHR ''#'' \<notin> set (portPart u)"
  "CHR ''@'' \<notin> set (portPart u)"
  by (rule portPart_no; simp add: DIGIT_def)+

lemma hostPart_lower:
  "map tolower (host u) = host u \<Longrightarrow>
   hostPart u = (if host u \<noteq> [] then
        (if ValidateIpv6Address (host u) then ''['' @ host u @ '']''
         else EncodeElement (host u) REG_NAME_NOT_PCT_ENCODED)
      else [])"
  by (simp add: hostPart_def)

lemma hostPart_chars:
  assumes "map tolower (host u) = host u"
  shows "CHR ''/'' \<notin> set (hostPart u)" "CHR ''?'' \<notin> set (hostPart u)"
    "CHR ''#'' \<notin> set (hostPart u)" "CHR ''@'' \<notin> set (hostPart u)"
  unfolding hostPart_lower[OF assms]
  by (auto simp: regname_no_delims dest: ipv6_host_chars)

lemma userInfoPart_chars:
  "CHR ''/'' \<notin> set (userInfoPart u)" "CHR ''?'' \<notin> set (userInfoPart u)"
  "CHR ''#'' \<notin> set (userInfoPart u)"
  by (auto simp: userInfoPart_def userinfo_no_delims)

lemma first_character:
  assumes "hostParsingState s = FIRST_CHARACTER" and "c \<noteq> CHR ''[''"
  shows "ParseAuthority_loop s (c # cs)
    = ParseAuthority_loop (s\<lparr>hostParsingState := NOT_IP_LITERAL, hostIsRegName := True\<rparr>) (c # cs)"
  using assms by (simp add: ParseAuthority_step_def)

lemma host_scan:
  assumes lc: "map tolower (host u) = host u"
  shows "\<exists>s. ParseAuthority_loop
           \<lparr> hostParsingState = FIRST_CHARACTER, scanHost = [],
             pecDecoder = ExpectFirstDigit, hostIsRegName = False, portString = [] \<rparr>
           (hostPart u @ portPart u) = Some s
     \<and> (hostParsingState s = FIRST_CHARACTER \<or> hostParsingState s = NOT_IP_LITERAL
        \<or> hostParsingState s = GARBAGE_CHECK \<or> hostParsingState s = PORT)
     \<and> scanHost s = host u
     \<and> portString s = (if hasPort u then decimal (unat (port u)) else [])"
    (is "\<exists>s. ParseAuthority_loop ?s0 _ = Some s \<and> ?good s")
proof (cases "host u \<noteq> [] \<and> ValidateIpv6Address (host u)")
  case True
  then obtain c cs where h: "host u = c # cs" by (cases "host u") auto
  from True have v: "ValidateIpv6Address (host u)" by simp
  note ch = ipv6_host_chars[OF v]
  have c: "c \<noteq> CHR ''v''" "c \<noteq> CHR '']''" "CHR '']'' \<notin> set cs" using ch h by auto
  let ?s1 = "?s0\<lparr>hostParsingState := IPV6_ADDRESS, scanHost := [c]\<rparr>"
  let ?s2 = "?s1\<lparr>scanHost := scanHost ?s1 @ cs\<rparr>"
  let ?s3 = "?s2\<lparr>hostParsingState := GARBAGE_CHECK\<rparr>"
  have x: "hostPart u @ portPart u = CHR ''['' # c # cs @ CHR '']'' # portPart u"
    using True h by (simp add: hostPart_lower[OF lc])
  have a: "ParseAuthority_loop ?s0 (CHR ''['' # c # cs @ CHR '']'' # portPart u)
      = ParseAuthority_loop ?s1 (cs @ CHR '']'' # portPart u)"
    using c by (simp add: ParseAuthority_step_def ParseAuthority_IPV6_ADDRESS_def)
  have b: "ParseAuthority_loop ?s1 (cs @ CHR '']'' # portPart u)
      = ParseAuthority_loop ?s2 (CHR '']'' # portPart u)"
    by (rule ipv6_string) (use c in simp_all)
  have d: "ParseAuthority_loop ?s2 (CHR '']'' # portPart u) = ParseAuthority_loop ?s3 (portPart u)"
    using v h by (simp add: ParseAuthority_step_def ParseAuthority_IPV6_ADDRESS_def)
  have e: "ParseAuthority_loop ?s3 (portPart u)
      = Some (if hasPort u
              then ?s3\<lparr>hostParsingState := PORT, portString := decimal (unat (port u))\<rparr>
              else ?s3)"
    by (rule port_tail) simp_all
  show ?thesis
    unfolding x a b d e using h by auto
next
  case False
  then have x: "hostPart u @ portPart u
      = concat (map (enc REG_NAME_NOT_PCT_ENCODED) (host u)) @ portPart u"
    by (auto simp: hostPart_lower[OF lc] EncodeElement_concat)
  let ?s1 = "?s0\<lparr>hostParsingState := NOT_IP_LITERAL, hostIsRegName := True\<rparr>"
  show ?thesis
  proof (cases "hostPart u @ portPart u")
    case Nil
    then have "host u = []" "\<not> hasPort u"
      using False by (auto simp: hostPart_lower[OF lc] portPart_def split: if_splits)
    with Nil show ?thesis by simp
  next
    case (Cons y ys)
    have "CHR ''['' \<notin> set (portPart u)" by (rule portPart_no) (simp_all add: DIGIT_def)
    then have "CHR ''['' \<notin> set (hostPart u @ portPart u)"
      using False by (auto simp: hostPart_lower[OF lc] regname_no_delims)
    with Cons have y: "y \<noteq> CHR ''[''" by auto
    have a: "ParseAuthority_loop ?s0 (hostPart u @ portPart u)
        = ParseAuthority_loop ?s1 (hostPart u @ portPart u)"
      unfolding Cons by (rule first_character) (simp_all add: y)
    obtain d where b: "ParseAuthority_loop ?s1
          (concat (map (enc REG_NAME_NOT_PCT_ENCODED) (host u)) @ portPart u)
        = ParseAuthority_loop (?s1\<lparr>scanHost := scanHost ?s1 @ host u, pecDecoder := d\<rparr>)
            (portPart u)"
      using regname_string[of ?s1 "host u" "portPart u"] by auto
    let ?s2 = "?s1\<lparr>scanHost := scanHost ?s1 @ host u, pecDecoder := d\<rparr>"
    have e: "ParseAuthority_loop ?s2 (portPart u)
        = Some (if hasPort u
                then ?s2\<lparr>hostParsingState := PORT, portString := decimal (unat (port u))\<rparr>
                else ?s2)"
      by (rule port_tail) simp_all
    show ?thesis
      unfolding a unfolding x b e by auto
  qed
qed

lemma ParseAuthority_hostPort_roundtrip:
  assumes lc: "map tolower (host u) = host u"
  shows "ParseAuthority_hostPort v (hostPart u @ portPart u)
    = Some (v\<lparr>host := host u, hasPort := hasPort u,
               port := (if hasPort u then port u else port v)\<rparr>)"
proof -
  from host_scan[OF lc] obtain s where
    l: "ParseAuthority_loop
           \<lparr> hostParsingState = FIRST_CHARACTER, scanHost = [],
             pecDecoder = ExpectFirstDigit, hostIsRegName = False, portString = [] \<rparr>
           (hostPart u @ portPart u) = Some s"
    and st: "hostParsingState s = FIRST_CHARACTER \<or> hostParsingState s = NOT_IP_LITERAL
        \<or> hostParsingState s = GARBAGE_CHECK \<or> hostParsingState s = PORT"
    and h: "scanHost s = host u"
    and p: "portString s = (if hasPort u then decimal (unat (port u)) else [])"
    by blast
  have hh: "(if hostIsRegName s then map tolower (scanHost s) else scanHost s) = host u"
    using h lc by simp
  show ?thesis
  proof (cases "hasPort u")
    case False
    with p have "portString s = []" by simp
    with l st hh False show ?thesis
      unfolding ParseAuthority_hostPort_def Let_def by auto
  next
    case True
    with p have ps: "portString s = decimal (unat (port u))" by simp
    have ne: "decimal (unat (port u)) \<noteq> []" by (rule decimal_not_Nil)
    from l st hh True ps ne port_range[of "port u"] show ?thesis
      unfolding ParseAuthority_hostPort_def Let_def
      by (auto simp add: port_value)
  qed
qed

lemma ParseAuthority_roundtrip:
  assumes lc: "map tolower (host u) = host u"
  shows "ParseAuthority v (userInfoPart u @ hostPart u @ portPart u)
    = Some (v\<lparr>userInfo := userInfo u, host := host u, hasPort := hasPort u,
               port := (if hasPort u then port u else port v)\<rparr>)"
proof (cases "userInfo u = []")
  case True
  have "CHR ''@'' \<notin> set (hostPart u @ portPart u)"
    using hostPart_chars(4)[OF lc] portPart_chars(4) by simp
  then have f: "find_char (hostPart u @ portPart u) CHR ''@'' = None" by (rule find_char_none)
  show ?thesis
    unfolding ParseAuthority_def
    using True f ParseAuthority_hostPort_roundtrip[OF lc, of "v\<lparr>userInfo := []\<rparr>"]
    by (simp add: userInfoPart_def)
next
  case False
  let ?e = "EncodeElement (userInfo u) USER_INFO_NOT_PCT_ENCODED"
  have x: "userInfoPart u @ hostPart u @ portPart u = ?e @ CHR ''@'' # (hostPart u @ portPart u)"
    using False by (simp add: userInfoPart_def)
  have f: "find_char (?e @ CHR ''@'' # (hostPart u @ portPart u)) CHR ''@'' = Some (length ?e)"
    by (rule find_char_hit) (rule userinfo_no_delims)
  have d: "DecodeElement ?e USER_INFO_NOT_PCT_ENCODED = Some (userInfo u)"
    by (rule DecodeElement_EncodeElement) (simp add: no_percent)
  show ?thesis
    unfolding ParseAuthority_def x f
    using d ParseAuthority_hostPort_roundtrip[OF lc, of "v\<lparr>userInfo := userInfo u\<rparr>"]
    by simp
qed

subsection \<open>The generated string, piece by piece\<close>

lemma root_path: "(IsPathAbsolute u \<and> length (path u) = 1) \<longleftrightarrow> path u = ['''']"
  by (cases "path u") (auto simp: IsPathAbsolute_def)

lemma GenerateString_parts:
  "GenerateString u
     = schemePart u @ authorityPart u @ pathPart u @ queryPart u @ fragmentPart u"
proof -
  have f: "\<And>buf. fst (foldl (GenerateString_segment (length (path u))) (buf, 0) (path u))
      = buf @ join_path (map (\<lambda>segment. EncodeElement segment PCHAR_NOT_PCT_ENCODED) (path u))"
    by (rule generate_path_fold) simp
  show ?thesis
    unfolding GenerateString_def Let_def f root_path
    by (cases "path u = ['''']")
       (simp_all add: schemePart_def authorityPart_def userInfoPart_def hostPart_def
          portPart_def pathPart_def queryPart_def fragmentPart_def)
qed

lemma join_path_chars:
  "c \<in> set (join_path segs) \<Longrightarrow> c = CHR ''/'' \<or> (\<exists>s \<in> set segs. c \<in> set s)"
  by (induction segs rule: join_path.induct) auto

lemma pathPart_chars: "CHR ''?'' \<notin> set (pathPart u)" "CHR ''#'' \<notin> set (pathPart u)"
  by (auto simp: pathPart_def pchar_no_delims dest!: join_path_chars)

lemma authorityPart_chars:
  assumes "map tolower (host u) = host u"
  shows "CHR ''?'' \<notin> set (authorityPart u)" "CHR ''#'' \<notin> set (authorityPart u)"
  using hostPart_chars[OF assms] userInfoPart_chars[of u] portPart_chars[of u]
  by (auto simp: authorityPart_def)

lemma pathPart_absolute:
  assumes "path u = [] \<or> IsPathAbsolute u"
  shows "pathPart u = [] \<or> (\<exists>r. pathPart u = CHR ''/'' # r)"
proof (cases "path u")
  case Nil
  then show ?thesis by (simp add: pathPart_def)
next
  case (Cons s rest)
  with assms have s: "s = []" by (simp add: IsPathAbsolute_def)
  show ?thesis
  proof (cases rest)
    case Nil
    with Cons s show ?thesis by (simp add: pathPart_def)
  next
    case (Cons t rest')
    with \<open>path u = s # rest\<close> s show ?thesis by (simp add: pathPart_def)
  qed
qed

lemma pathPart_no_double_slash:
  assumes "take 2 (path u) \<noteq> ['''', '''']"
  shows "substr_n (pathPart u) 0 2 \<noteq> ''//''"
proof (cases "path u")
  case Nil
  then show ?thesis by (simp add: pathPart_def substr_n_def)
next
  case (Cons s rest)
  note p = Cons
  have n: "\<And>x. CHR ''/'' \<notin> set (EncodeElement x PCHAR_NOT_PCT_ENCODED)"
    by (rule pchar_no_delims)
  show ?thesis
  proof (cases rest)
    case Nil
    show ?thesis
    proof (cases "s = []")
      case True
      with p Nil show ?thesis by (simp add: pathPart_def substr_n_def)
    next
      case False
      then obtain y ys where e: "EncodeElement s PCHAR_NOT_PCT_ENCODED = y # ys"
        by (cases "EncodeElement s PCHAR_NOT_PCT_ENCODED") auto
      with n[of s] have "y \<noteq> CHR ''/''" by auto
      with p Nil False e show ?thesis by (cases ys) (simp_all add: pathPart_def substr_n_def)
    qed
  next
    case (Cons t rest')
    show ?thesis
    proof (cases "s = []")
      case False
      then obtain y ys where e: "EncodeElement s PCHAR_NOT_PCT_ENCODED = y # ys"
        by (cases "EncodeElement s PCHAR_NOT_PCT_ENCODED") auto
      with n[of s] have "y \<noteq> CHR ''/''" by auto
      with p Cons False e show ?thesis by (cases ys) (simp_all add: pathPart_def substr_n_def)
    next
      case True
      with assms p Cons have t: "t \<noteq> []" by simp
      then obtain y ys where e: "EncodeElement t PCHAR_NOT_PCT_ENCODED = y # ys"
        by (cases "EncodeElement t PCHAR_NOT_PCT_ENCODED") auto
      with n[of t] have y: "y \<noteq> CHR ''/''" by auto
      have "pathPart u = CHR ''/'' # y # (ys @ (case rest' of [] \<Rightarrow> []
          | r # rs \<Rightarrow> CHR ''/'' # join_path (map (\<lambda>segment. EncodeElement segment PCHAR_NOT_PCT_ENCODED) rest')))"
        using p Cons True e by (cases rest') (simp_all add: pathPart_def)
      with y show ?thesis by (simp add: substr_n_def)
    qed
  qed
qed

subsection \<open>The stages of the parser on the generated string\<close>

lemma SplitAuthority_with:
  assumes "HasAuthority u" and lc: "map tolower (host u) = host u"
    and "pathPart u = [] \<or> (\<exists>r. pathPart u = CHR ''/'' # r)"
  shows "SplitAuthorityFromPathAndParseIt v (authorityPart u @ pathPart u)
    = Some (v\<lparr>userInfo := userInfo u, host := host u, hasPort := hasPort u,
               port := (if hasPort u then port u else port v)\<rparr>, pathPart u)"
proof -
  let ?A = "userInfoPart u @ hostPart u @ portPart u"
  have x: "authorityPart u @ pathPart u = ''//'' @ ?A @ pathPart u"
    using assms(1) by (simp add: authorityPart_def)
  have ns: "CHR ''/'' \<notin> set ?A"
    using hostPart_chars(1)[OF lc] userInfoPart_chars(1)[of u] portPart_chars(1)[of u] by simp
  have e: "(case find_char (?A @ pathPart u) CHR ''/'' of None \<Rightarrow> length (?A @ pathPart u)
              | Some n \<Rightarrow> n) = length ?A"
  proof (cases "pathPart u")
    case Nil
    with ns show ?thesis by (simp add: find_char_none)
  next
    case (Cons y ys)
    with assms(3) have "y = CHR ''/''" by auto
    with Cons have "find_char (?A @ pathPart u) CHR ''/'' = Some (length ?A)"
      using find_char_hit[OF ns, of ys] by simp
    then show ?thesis by simp
  qed
  have s2: "substr_n (''//'' @ ?A @ pathPart u) 0 2 = ''//''" by (simp add: substr_n_def)
  have d2: "substr (''//'' @ ?A @ pathPart u) 2 = ?A @ pathPart u" by (simp add: substr_def)
  have t: "substr_n (?A @ pathPart u) 0 (length ?A) = ?A" by (rule substr_n_append)
  have d: "substr (?A @ pathPart u) (length ?A) = pathPart u" by (rule substr_append)
  show ?thesis
    unfolding SplitAuthorityFromPathAndParseIt_def x s2 d2 Let_def e t d
    by (simp add: ParseAuthority_roundtrip[OF lc])
qed

lemma SplitAuthority_without:
  assumes "\<not> HasAuthority u" and "substr_n (pathPart u) 0 2 \<noteq> ''//''"
  shows "SplitAuthorityFromPathAndParseIt v (authorityPart u @ pathPart u)
    = Some (v\<lparr>userInfo := [], host := [], hasPort := False\<rparr>, pathPart u)"
  using assms by (simp add: SplitAuthorityFromPathAndParseIt_def authorityPart_def)

lemma decode_empty: "DecodeQueryOrFragment [] = Some []"
  by (simp add: DecodeQueryOrFragment_def DecodeElement_def)

lemma ParseQuery_roundtrip:
  "ParseQuery v (queryPart u)
    = Some (v\<lparr>hasQuery := hasQuery u, query := (if hasQuery u then query u else [])\<rparr>)"
  by (cases "hasQuery u")
     (simp_all add: ParseQuery_def queryPart_def substr_def decode_query decode_empty)

lemma ParseFragment_roundtrip:
  "ParseFragment v (queryPart u @ fragmentPart u)
    = Some (v\<lparr>hasFragment := hasFragment u,
               fragment := (if hasFragment u then fragment u else [])\<rparr>, queryPart u)"
proof (cases "hasFragment u")
  case False
  have "CHR ''#'' \<notin> set (queryPart u)" by (simp add: queryPart_def query_no_hash)
  then have "find_char (queryPart u) CHR ''#'' = None" by (rule find_char_none)
  with False show ?thesis
    by (simp add: ParseFragment_def fragmentPart_def decode_empty)
next
  case True
  let ?f = "EncodeElement (fragment u) QUERY_OR_FRAGMENT_NOT_PCT_ENCODED"
  have n: "CHR ''#'' \<notin> set (queryPart u)" by (simp add: queryPart_def query_no_hash)
  have x: "queryPart u @ fragmentPart u = queryPart u @ CHR ''#'' # ?f"
    using True by (simp add: fragmentPart_def)
  have f: "find_char (queryPart u @ CHR ''#'' # ?f) CHR ''#'' = Some (length (queryPart u))"
    using n by (rule find_char_hit)
  show ?thesis
    unfolding ParseFragment_def x f using True by (simp add: decode_fragment)
qed

lemma path_end:
  assumes "CHR ''?'' \<notin> set AP" and "CHR ''#'' \<notin> set AP"
  shows "(case find_first_of (AP @ queryPart u @ fragmentPart u) ''?#'' of
            None \<Rightarrow> AP @ queryPart u @ fragmentPart u
          | Some pathEnd \<Rightarrow> substr_n (AP @ queryPart u @ fragmentPart u) 0 pathEnd) = AP"
proof (cases "queryPart u @ fragmentPart u")
  case Nil
  from assms have "set AP \<inter> set ''?#'' = {}" by simp
  then have "find_first_of AP ''?#'' = None" by (rule find_first_of_none)
  with Nil show ?thesis by simp
next
  case (Cons y ys)
  then have y: "y \<in> set ''?#''"
    by (auto simp: queryPart_def fragmentPart_def split: if_splits)
  from assms have "set AP \<inter> set ''?#'' = {}" by simp
  from find_first_of_hit[OF this y, of ys]
  have "find_first_of (AP @ queryPart u @ fragmentPart u) ''?#'' = Some (length AP)"
    using Cons by simp
  then show ?thesis by simp
qed

subsection \<open>What a successful parse guarantees\<close>

lemma ParsePath_split_acc: "ParsePath_split s acc = acc @ ParsePath_split s []"
proof (induction "length s" arbitrary: s acc rule: less_induct)
  case less
  show ?case
  proof (cases "find_char s CHR ''/''")
    case None
    then show ?thesis by (subst (1 2) ParsePath_split.simps) simp
  next
    case (Some n)
    then have "s \<noteq> []" by (auto simp: find_char_def find_first_of_def split: if_splits)
    then have l: "length (substr s (n + 1)) < length s" by (simp add: substr_def)
    have "ParsePath_split s acc = ParsePath_split (substr s (n + 1)) (acc @ [take n s])"
      by (subst ParsePath_split.simps) (simp add: Some)
    also have "\<dots> = (acc @ [take n s]) @ ParsePath_split (substr s (n + 1)) []"
      by (rule less[OF l])
    also have "\<dots> = acc @ ParsePath_split (substr s (n + 1)) ([] @ [take n s])"
      using less[OF l, of "[] @ [take n s]"] by simp
    also have "\<dots> = acc @ ParsePath_split s []"
      by (subst (2) ParsePath_split.simps) (simp add: Some)
    finally show ?thesis .
  qed
qed

lemma ParsePath_split_slash: "ParsePath_split (CHR ''/'' # r) [] = [] # ParsePath_split r []"
proof -
  have f: "find_char (CHR ''/'' # r) CHR ''/'' = Some 0"
    using find_char_hit[of "CHR ''/''" "[]" r] by simp
  have "ParsePath_split (CHR ''/'' # r) [] = ParsePath_split r [[]]"
    by (subst ParsePath_split.simps) (simp add: f substr_def)
  also have "\<dots> = [[]] @ ParsePath_split r []" by (rule ParsePath_split_acc)
  finally show ?thesis by simp
qed

lemma ParsePath_fields: "ParsePath v s = Some v' \<Longrightarrow> v' = v\<lparr>path := path v'\<rparr>"
  by (auto simp: ParsePath_def Let_def split: option.splits)

lemma ParsePath_absolute:
  assumes "ParsePath v (CHR ''/'' # r) = Some v'"
  shows "IsPathAbsolute v'"
proof (cases "r = []")
  case True
  with assms show ?thesis
    by (auto simp: ParsePath_def DecodeElement_def IsPathAbsolute_def split: option.splits)
next
  case False
  with assms show ?thesis
    by (auto simp: ParsePath_def ParsePath_split_slash DecodeElement_def IsPathAbsolute_def
        split: option.splits)
qed

lemma ParsePath_empty: "ParsePath v [] = Some v' \<Longrightarrow> path v' = []"
  by (auto simp: ParsePath_def)

lemma find_char_drop: "find_char X c = Some n \<Longrightarrow> \<exists>r. drop n X = c # r"
proof -
  assume "find_char X c = Some n"
  then have m: "c \<in> set X" and n: "n = length (takeWhile (\<lambda>x. x \<noteq> c) X)"
    by (auto simp: find_char_def find_first_of_def split: if_splits)
  have d: "drop n X = dropWhile (\<lambda>x. x \<noteq> c) X"
    unfolding n by (rule dropWhile_eq_drop [symmetric])
  from m have "dropWhile (\<lambda>x. x \<noteq> c) X \<noteq> []" by auto
  then obtain y ys where y: "dropWhile (\<lambda>x. x \<noteq> c) X = y # ys"
    by (cases "dropWhile (\<lambda>x. x \<noteq> c) X") auto
  then have "\<not> (y \<noteq> c)" using hd_dropWhile[of "\<lambda>x. x \<noteq> c" X] by force
  with d y show ?thesis by simp
qed

lemma ParseAuthority_hostPort_fields:
  "ParseAuthority_hostPort v x = Some v' \<Longrightarrow> scheme v' = scheme v \<and> path v' = path v"
  by (auto simp: ParseAuthority_hostPort_def Let_def split: option.splits if_splits)

lemma ParseAuthority_fields:
  "ParseAuthority v x = Some v' \<Longrightarrow> scheme v' = scheme v \<and> path v' = path v"
  by (auto simp: ParseAuthority_def split: option.splits dest!: ParseAuthority_hostPort_fields)

lemma SplitAuthority_result:
  assumes "SplitAuthorityFromPathAndParseIt v x = Some (v', ps)"
  shows "scheme v' = scheme v"
    and "HasAuthority v' \<longrightarrow> ps = [] \<or> (\<exists>r. ps = CHR ''/'' # r)"
proof -
  show "scheme v' = scheme v"
    using assms
    by (auto simp: SplitAuthorityFromPathAndParseIt_def Let_def
        split: if_splits option.splits dest!: ParseAuthority_fields)
  show "HasAuthority v' \<longrightarrow> ps = [] \<or> (\<exists>r. ps = CHR ''/'' # r)"
  proof (cases "substr_n x 0 2 = ''//''")
    case False
    with assms show ?thesis
      by (auto simp: SplitAuthorityFromPathAndParseIt_def HasAuthority_def)
  next
    case True
    let ?X = "substr x 2"
    from assms True have ps: "ps = substr ?X (case find_char ?X CHR ''/'' of
        None \<Rightarrow> length ?X | Some n \<Rightarrow> n)"
      by (auto simp: SplitAuthorityFromPathAndParseIt_def Let_def split: option.splits)
    show ?thesis
    proof (cases "find_char ?X CHR ''/''")
      case None
      with ps show ?thesis by (simp add: substr_def)
    next
      case (Some n)
      from find_char_drop[OF Some] ps Some show ?thesis by (simp add: substr_def)
    qed
  qed
qed

lemma ParseFragment_fields:
  "ParseFragment v x = Some (v', r) \<Longrightarrow>
   scheme v' = scheme v \<and> userInfo v' = userInfo v \<and> host v' = host v
   \<and> hasPort v' = hasPort v \<and> path v' = path v"
  by (auto simp: ParseFragment_def split: option.splits)

lemma ParseQuery_fields:
  "ParseQuery v x = Some v' \<Longrightarrow>
   scheme v' = scheme v \<and> userInfo v' = userInfo v \<and> host v' = host v
   \<and> hasPort v' = hasPort v \<and> path v' = path v"
  by (auto simp: ParseQuery_def Let_def split: option.splits)

lemma SetDefaultPath_fields:
  "scheme (SetDefaultPathIfAuthorityPresentAndPathEmpty v) = scheme v"
  "userInfo (SetDefaultPathIfAuthorityPresentAndPathEmpty v) = userInfo v"
  "host (SetDefaultPathIfAuthorityPresentAndPathEmpty v) = host v"
  "hasPort (SetDefaultPathIfAuthorityPresentAndPathEmpty v) = hasPort v"
  by (simp_all add: SetDefaultPathIfAuthorityPresentAndPathEmpty_def)

lemma ParseFromString_stages:
  assumes "ParseFromString v0 s = Some u"
  obtains u1 rest x u2 ps u3 qf u5 rest' where
    "ParseScheme v0 s = Some (u1, rest)"
    "SplitAuthorityFromPathAndParseIt u1 x = Some (u2, ps)"
    "ParsePath u2 ps = Some u3"
    "ParseFragment (SetDefaultPathIfAuthorityPresentAndPathEmpty u3) qf = Some (u5, rest')"
    "ParseQuery u5 rest' = Some u"
  using assms unfolding ParseFromString_def Let_def
  by (auto split: option.splits prod.splits)

lemma ParseFromString_invariants:
  assumes "ParseFromString v0 s = Some u"
  shows "scheme u = [] \<or> (legal_scheme (scheme u) \<and> map tolower (scheme u) = scheme u)"
    and "HasAuthority u \<longrightarrow> path u = [] \<or> IsPathAbsolute u"
    and "host u \<noteq> [] \<longrightarrow> path u \<noteq> []"
proof -
  from assms obtain u1 rest x u2 ps u3 qf u5 rest' where
    a: "ParseScheme v0 s = Some (u1, rest)"
    and b: "SplitAuthorityFromPathAndParseIt u1 x = Some (u2, ps)"
    and c: "ParsePath u2 ps = Some u3"
    and d: "ParseFragment (SetDefaultPathIfAuthorityPresentAndPathEmpty u3) qf = Some (u5, rest')"
    and e: "ParseQuery u5 rest' = Some u"
    by (rule ParseFromString_stages)
  let ?u4 = "SetDefaultPathIfAuthorityPresentAndPathEmpty u3"
  note fd = ParseFragment_fields[OF d] and fe = ParseQuery_fields[OF e]
  note fc = ParsePath_fields[OF c]
  have f3: "scheme u3 = scheme u2" "userInfo u3 = userInfo u2" "host u3 = host u2"
    "hasPort u3 = hasPort u2"
    by (subst fc, simp)+
  have sch: "scheme u = scheme u1"
    using fe fd SetDefaultPath_fields(1)[of u3] f3 SplitAuthority_result(1)[OF b] by simp
  show "scheme u = [] \<or> (legal_scheme (scheme u) \<and> map tolower (scheme u) = scheme u)"
    unfolding sch by (rule ParseScheme_result[OF a])
  have au: "HasAuthority u = HasAuthority u2"
    using fe fd f3 by (simp add: HasAuthority_def SetDefaultPath_fields)
  have pu: "path u = path ?u4" using fe fd by simp
  have hu: "host u = host u3" using fe fd by (simp add: SetDefaultPath_fields)
  show "host u \<noteq> [] \<longrightarrow> path u \<noteq> []"
    unfolding pu hu by (simp add: SetDefaultPathIfAuthorityPresentAndPathEmpty_def)
  show "HasAuthority u \<longrightarrow> path u = [] \<or> IsPathAbsolute u"
  proof
    assume "HasAuthority u"
    with au SplitAuthority_result(2)[OF b] have "ps = [] \<or> (\<exists>r. ps = CHR ''/'' # r)" by simp
    then have "path u3 = [] \<or> IsPathAbsolute u3"
      using c ParsePath_empty ParsePath_absolute by blast
    then have "path ?u4 = [] \<or> IsPathAbsolute ?u4"
      by (auto simp: SetDefaultPathIfAuthorityPresentAndPathEmpty_def IsPathAbsolute_def)
    then show "path u = [] \<or> IsPathAbsolute u"
      using pu by (simp add: IsPathAbsolute_def)
  qed
qed

subsection \<open>The round trip\<close>

lemma SetDefaultPath_noop:
  "host v \<noteq> [] \<longrightarrow> path v \<noteq> [] \<Longrightarrow> SetDefaultPathIfAuthorityPresentAndPathEmpty v = v"
  by (auto simp: SetDefaultPathIfAuthorityPresentAndPathEmpty_def)

lemma ParseScheme_generated:
  assumes "scheme u = [] \<or> (legal_scheme (scheme u) \<and> map tolower (scheme u) = scheme u)"
    and "scheme u = [] \<and> \<not> HasAuthority u \<longrightarrow>
         CHR '':'' \<notin> set (takeWhile (\<lambda>c. c \<noteq> CHR ''/'') (GenerateString u))"
  shows "ParseScheme v (GenerateString u)
    = Some (v\<lparr>scheme := scheme u\<rparr>,
            authorityPart u @ pathPart u @ queryPart u @ fragmentPart u)"
proof (cases "scheme u = []")
  case True
  let ?R = "authorityPart u @ pathPart u @ queryPart u @ fragmentPart u"
  have g: "GenerateString u = ?R" using True by (simp add: GenerateString_parts schemePart_def)
  have "CHR '':'' \<notin> set (takeWhile (\<lambda>c. c \<noteq> CHR ''/'') ?R)"
  proof (cases "HasAuthority u")
    case True
    then show ?thesis by (simp add: authorityPart_def)
  next
    case False
    with assms(2) \<open>scheme u = []\<close> g show ?thesis by simp
  qed
  then have "ParseScheme v ?R = Some (v\<lparr>scheme := []\<rparr>, ?R)" by (rule ParseScheme_none)
  with True g show ?thesis by simp
next
  case False
  with assms(1) have l: "legal_scheme (scheme u)" "map tolower (scheme u) = scheme u" by auto
  have g: "GenerateString u
      = scheme u @ CHR '':'' # (authorityPart u @ pathPart u @ queryPart u @ fragmentPart u)"
    using False by (simp add: GenerateString_parts schemePart_def)
  show ?thesis unfolding g by (rule ParseScheme_some[OF l])
qed

lemma ParseFromString_GenerateString:
  assumes inv: "scheme u = [] \<or> (legal_scheme (scheme u) \<and> map tolower (scheme u) = scheme u)"
      "HasAuthority u \<longrightarrow> path u = [] \<or> IsPathAbsolute u"
      "host u \<noteq> [] \<longrightarrow> path u \<noteq> []"
    and lc: "map tolower (host u) = host u"
    and p2: "path u \<noteq> ['''', '''']"
    and p3: "\<not> HasAuthority u \<longrightarrow> take 2 (path u) \<noteq> ['''', '''']"
    and col: "scheme u = [] \<and> \<not> HasAuthority u \<longrightarrow>
         CHR '':'' \<notin> set (takeWhile (\<lambda>c. c \<noteq> CHR ''/'') (GenerateString u))"
  shows "ParseFromString v (GenerateString u)
    = Some (v\<lparr>scheme := scheme u, userInfo := userInfo u, host := host u,
               hasPort := hasPort u, port := (if hasPort u then port u else port v),
               path := path u,
               hasFragment := hasFragment u,
               fragment := (if hasFragment u then fragment u else []),
               hasQuery := hasQuery u,
               query := (if hasQuery u then query u else [])\<rparr>)"
proof -
  let ?AP = "authorityPart u @ pathPart u"
  let ?R = "?AP @ queryPart u @ fragmentPart u"
  let ?v1 = "v\<lparr>scheme := scheme u\<rparr>"
  let ?v2 = "?v1\<lparr>userInfo := userInfo u, host := host u, hasPort := hasPort u,
               port := (if hasPort u then port u else port v)\<rparr>"
  let ?v3 = "?v2\<lparr>path := path u\<rparr>"
  have s1: "ParseScheme v (GenerateString u) = Some (?v1, ?R)"
    using ParseScheme_generated[OF inv(1) col] by simp
  have ap: "CHR ''?'' \<notin> set ?AP" "CHR ''#'' \<notin> set ?AP"
    using authorityPart_chars[OF lc] pathPart_chars[of u] by simp_all
  have pe: "(case find_first_of ?R ''?#'' of None \<Rightarrow> ?R
              | Some pathEnd \<Rightarrow> substr_n ?R 0 pathEnd) = ?AP"
    using path_end[OF ap] by simp
  have qf: "substr ?R (length ?AP) = queryPart u @ fragmentPart u"
    using substr_append[of ?AP "queryPart u @ fragmentPart u"] by simp
  have s2: "SplitAuthorityFromPathAndParseIt ?v1 ?AP = Some (?v2, pathPart u)"
  proof (cases "HasAuthority u")
    case True
    with inv(2) have "path u = [] \<or> IsPathAbsolute u" by simp
    then have "pathPart u = [] \<or> (\<exists>r. pathPart u = CHR ''/'' # r)" by (rule pathPart_absolute)
    from SplitAuthority_with[OF True lc this, of ?v1] show ?thesis by simp
  next
    case False
    with p3 have "substr_n (pathPart u) 0 2 \<noteq> ''//''" by (simp add: pathPart_no_double_slash)
    from SplitAuthority_without[OF False this, of ?v1] False show ?thesis
      by (simp add: HasAuthority_def)
  qed
  have s3: "ParsePath ?v2 (pathPart u) = Some ?v3" by (rule ParsePath_pathPart[OF p2])
  have s4: "SetDefaultPathIfAuthorityPresentAndPathEmpty ?v3 = ?v3"
    by (rule SetDefaultPath_noop) (use inv(3) in simp)
  show ?thesis
    unfolding ParseFromString_def s1 option.case prod.case Let_def pe qf s2 s3 s4
      ParseFragment_roundtrip ParseQuery_roundtrip
    by simp
qed

text \<open>
  C1, as stated, fails: an IPv6 host is stored as written and lower-cased only when
  serialized, so \<^verbatim>\<open>//[::A]\<close> parses to host \<^verbatim>\<open>::A\<close>, is rendered as \<^verbatim>\<open>//[::a]/\<close>, and that
  parses to host \<^verbatim>\<open>::a\<close>, which \<^verbatim>\<open>operator==\<close> tells apart.
\<close>

theorem roundtrip_ipv6_uppercase_counterexample:
  "ParseFromString emptyUri ''//[::A]'' = Some (emptyUri\<lparr> host := ''::A'', path := [''''] \<rparr>)
   \<and> GenerateString (emptyUri\<lparr> host := ''::A'', path := [''''] \<rparr>) = ''//[::a]/''
   \<and> ParseFromString emptyUri ''//[::a]/'' = Some (emptyUri\<lparr> host := ''::a'', path := [''''] \<rparr>)
   \<and> \<not> operator_eq (emptyUri\<lparr> host := ''::a'', path := [''''] \<rparr>)
                     (emptyUri\<lparr> host := ''::A'', path := [''''] \<rparr>)"
  by code_simp

text \<open>
  The other hypotheses of the amended statement are needed as well. A colon that was
  escaped in the first segment, or in the query, of a reference without scheme and
  authority is written back unescaped and read as a scheme delimiter; a path that begins
  with two empty segments is written back as \<^verbatim>\<open>//\<close> and read as an authority; the path
  of two empty segments, which an escape cut short can produce, is written back as \<^verbatim>\<open>/\<close>.
\<close>

lemma roundtrip_other_failures:
  "ParseFromString emptyUri ''a%3Ab'' = Some (emptyUri\<lparr> path := [''a:b''] \<rparr>)"
  "GenerateString (emptyUri\<lparr> path := [''a:b''] \<rparr>) = ''a:b''"
  "ParseFromString emptyUri ''a:b'' = Some (emptyUri\<lparr> scheme := ''a'', path := [''b''] \<rparr>)"
  "ParseFromString emptyUri ''?a%3Ab'' = Some (emptyUri\<lparr> hasQuery := True, query := ''a:b'' \<rparr>)"
  "GenerateString (emptyUri\<lparr> hasQuery := True, query := ''a:b'' \<rparr>) = ''?a:b''"
  "ParseFromString emptyUri ''?a:b'' = None"
  "ParseFromString emptyUri ''a:////x''
     = Some (emptyUri\<lparr> scheme := ''a'', path := ['''', '''', ''x''] \<rparr>)"
  "GenerateString (emptyUri\<lparr> scheme := ''a'', path := ['''', '''', ''x''] \<rparr>) = ''a://x''"
  "ParseFromString emptyUri ''a://x''
     = Some (emptyUri\<lparr> scheme := ''a'', host := ''x'', path := [''''] \<rparr>)"
  "ParseFromString emptyUri ''/%4'' = Some (emptyUri\<lparr> path := ['''', ''''] \<rparr>)"
  "GenerateString (emptyUri\<lparr> path := ['''', ''''] \<rparr>) = ''/''"
  "ParseFromString emptyUri ''/'' = Some (emptyUri\<lparr> path := [''''] \<rparr>)"
  by code_simp+

text \<open>
  C1, amended. Let \<^verbatim>\<open>ParseFromString\<close> succeed on \<open>s\<close> with the value \<open>u\<close> (starting from
  any object \<open>v0\<close>), and let
  \<^item> the stored host have no upper-case ASCII letter,
  \<^item> the path not be exactly two empty segments and, when \<open>u\<close> has no authority, not
    begin with two empty segments,
  \<^item> when \<open>u\<close> has neither scheme nor authority, the generated string have no \<^verbatim>\<open>:\<close>
    before its first \<^verbatim>\<open>/\<close>.
  Then \<^verbatim>\<open>ParseFromString\<close> succeeds on \<^verbatim>\<open>GenerateString()\<close> of \<open>u\<close> (on any object \<open>v1\<close>)
  and yields a value equal to \<open>u\<close> under \<^verbatim>\<open>operator==\<close>.
\<close>

theorem ParseFromString_GenerateString_roundtrip:
  assumes "ParseFromString v0 s = Some u"
    and "map tolower (host u) = host u"
    and "path u \<noteq> ['''', '''']"
    and "\<not> HasAuthority u \<longrightarrow> take 2 (path u) \<noteq> ['''', '''']"
    and "scheme u = [] \<and> \<not> HasAuthority u \<longrightarrow>
         CHR '':'' \<notin> set (takeWhile (\<lambda>c. c \<noteq> CHR ''/'') (GenerateString u))"
  shows "\<exists>u'. ParseFromString v1 (GenerateString u) = Some u' \<and> operator_eq u' u"
proof -
  note inv = ParseFromString_invariants[OF assms(1)]
  have "ParseFromString v1 (GenerateString u)
    = Some (v1\<lparr>scheme := scheme u, userInfo := userInfo u, host := host u,
               hasPort := hasPort u, port := (if hasPort u then port u else port v1),
               path := path u,
               hasFragment := hasFragment u,
               fragment := (if hasFragment u then fragment u else []),
               hasQuery := hasQuery u,
               query := (if hasQuery u then query u else [])\<rparr>)"
    by (rule ParseFromString_GenerateString[OF inv assms(2-5)])
  then show ?thesis by (simp add: operator_eq_def)
qed

text \<open>
  Two instances: an absolute URI with user info, port, escapes, query and fragment, and
  a relative reference without authority whose colon comes after the first \<^verbatim>\<open>/\<close>.
\<close>

theorem ParseFromString_GenerateString_roundtrip_witness:
  "ParseFromString emptyUri ''HTTP://us%40er@EXAMPLE.com:65535/a%20b/?x+y#f''
     = Some \<lparr> scheme = ''http'', userInfo = ''us@er'', host = ''example.com'',
              hasPort = True, port = 65535, path = ['''', ''a b'', ''''], hasQuery = True,
              query = ''x+y'', hasFragment = True, fragment = ''f'' \<rparr>
   \<and> (\<exists>u'. ParseFromString emptyUri
            (GenerateString \<lparr> scheme = ''http'', userInfo = ''us@er'', host = ''example.com'',
              hasPort = True, port = 65535, path = ['''', ''a b'', ''''], hasQuery = True,
              query = ''x+y'', hasFragment = True, fragment = ''f'' \<rparr>) = Some u'
          \<and> operator_eq u' \<lparr> scheme = ''http'', userInfo = ''us@er'', host = ''example.com'',
              hasPort = True, port = 65535, path = ['''', ''a b'', ''''], hasQuery = True,
              query = ''x+y'', hasFragment = True, fragment = ''f'' \<rparr>)
   \<and> ParseFromString emptyUri ''a/b:c?q''
     = Some (emptyUri\<lparr> path := [''a'', ''b:c''], hasQuery := True, query := ''q'' \<rparr>)
   \<and> (\<exists>u'. ParseFromString emptyUri
            (GenerateString (emptyUri\<lparr> path := [''a'', ''b:c''], hasQuery := True,
                                       query := ''q'' \<rparr>)) = Some u'
          \<and> operator_eq u' (emptyUri\<lparr> path := [''a'', ''b:c''], hasQuery := True,
                                       query := ''q'' \<rparr>))"
proof -
  let ?U = "\<lparr> scheme = ''http'', userInfo = ''us@er'', host = ''example.com'',
              hasPort = True, port = 65535, path = ['''', ''a b'', ''''], hasQuery = True,
              query = ''x+y'', hasFragment = True, fragment = ''f'' \<rparr>"
  let ?V = "emptyUri\<lparr> path := [''a'', ''b:c''], hasQuery := True, query := ''q'' \<rparr>"
  have p: "ParseFromString emptyUri ''HTTP://us%40er@EXAMPLE.com:65535/a%20b/?x+y#f'' = Some ?U"
    by code_simp
  have h: "map tolower (host ?U) = host ?U" by code_simp
  have a: "HasAuthority ?U" by (simp add: HasAuthority_def)
  have q: "ParseFromString emptyUri ''a/b:c?q'' = Some ?V" by code_simp
  have g: "GenerateString ?V = ''a/b:c?q''" by code_simp
  have k: "map tolower (host ?V) = host ?V" by (simp add: emptyUri_def)
  have c: "CHR '':'' \<notin> set (takeWhile (\<lambda>c. c \<noteq> CHR ''/'') (GenerateString ?V))"
    unfolding g by simp
  have r1: "\<exists>u'. ParseFromString emptyUri (GenerateString ?U) = Some u' \<and> operator_eq u' ?U"
    by (rule ParseFromString_GenerateString_roundtrip[OF p h]) (use a in simp_all)
  have r2: "\<exists>u'. ParseFromString emptyUri (GenerateString ?V) = Some u' \<and> operator_eq u' ?V"
    by (rule ParseFromString_GenerateString_roundtrip[OF q k]) (use c in \<open>simp_all add: emptyUri_def\<close>)
  from p q r1 r2 show ?thesis by blast
qed

end
